theory Spec2Isabelle
  imports Main "HOL-Library.AList"
begin

section \<open>The trie-based regex compiler of the grammar update script\<close>

text \<open>
  The script that regenerates the LSL and SLua grammars contains one function,
  \<open>createOptimizedRegex(strings, options)\<close>, which turns a vocabulary of literal
  names into one regular-expression pattern through a prefix tree. This theory embeds
  that function, its three local helpers (\<open>buildTrie\<close>, \<open>trieToRegex\<close>,
  \<open>escapeRegexChar\<close>) and the part of the script that assembles the SLua
  \<open>standard_library\<close> rules.

  A JavaScript string is modelled as a \<open>string\<close>, one \<open>char\<close> for each character
  that \<open>for (const char of str)\<close> yields. Case mapping is the ASCII one.
\<close>

subsection \<open>Values, options and errors\<close>

text \<open>The values a caller can pass, as far as \<open>Array.isArray\<close>, truthiness and
  \<open>typeof\<close> tell them apart.\<close>

datatype jsvalue =
    JUndefined
  | JNull
  | JBoolean bool
  | JNumber int
  | JString string
  | JObject
  | JArray "jsvalue list"

text \<open>The options object; a field that is absent is \<open>None\<close> and takes its default
  in the destructuring \<open>{ wordBoundaries = true, caseInsensitive = false } = options\<close>.\<close>

record options =
  wordBoundaries :: "bool option"
  caseInsensitive :: "bool option"

definition no_options :: options where
  "no_options = \<lparr>wordBoundaries = None, caseInsensitive = None\<rparr>"

definition opt_wordBoundaries :: "options \<Rightarrow> bool" where
  "opt_wordBoundaries opts = (case wordBoundaries opts of None \<Rightarrow> True | Some b \<Rightarrow> b)"

definition opt_caseInsensitive :: "options \<Rightarrow> bool" where
  "opt_caseInsensitive opts = (case caseInsensitive opts of None \<Rightarrow> False | Some b \<Rightarrow> b)"

text \<open>\<open>throw new Error(message)\<close>, and the \<open>TypeError\<close> of reading a property of
  \<open>undefined\<close>.\<close>

datatype error = Error string | TypeError

subsection \<open>Strings\<close>

definition toLowerCase_char :: "char \<Rightarrow> char" where
  "toLowerCase_char c =
     (if 65 \<le> (of_char c :: nat) \<and> (of_char c :: nat) \<le> 90
      then char_of ((of_char c :: nat) + 32) else c)"

definition toLowerCase :: "string \<Rightarrow> string" where
  "toLowerCase s = map toLowerCase_char s"

text \<open>\<open>Array.prototype.join\<close>.\<close>

fun join :: "string \<Rightarrow> string list \<Rightarrow> string" where
  "join sep [] = []"
| "join sep [x] = x"
| "join sep (x # y # ys) = x @ sep @ join sep (y # ys)"

text \<open>The characters of the class \<open>[.*+?^${}()|[\]\\]\<close>.\<close>

definition specialChars :: "char list" where
  "specialChars = ''.*+?^${}()|[]'' @ [CHR 0x5C]"

definition escapeRegexChar :: "char \<Rightarrow> string" where
  "escapeRegexChar c = (if c \<in> set specialChars then [CHR 0x5C, c] else [c])"

subsection \<open>The prefix tree\<close>

text \<open>A \<open>TrieNode\<close>: the flag \<open>isEndOfWord\<close> and the \<open>children\<close> map. A JavaScript
  \<open>Map\<close> iterates in insertion order, so the map is an association list in that order.\<close>

datatype trie = Node (isEndOfWord: bool) (children: "(char \<times> trie) list")

definition new_TrieNode :: trie where
  "new_TrieNode = Node False []"

text \<open>The inner loop of \<open>buildTrie\<close>: walk down from \<open>current\<close> along the characters,
  creating the child where \<open>children.has(char)\<close> is false, and mark the node reached.
  \<open>AList.update\<close> keeps the position of a key that is present and appends a new key,
  as \<open>Map.set\<close> does.\<close>

fun insert_word :: "string \<Rightarrow> trie \<Rightarrow> trie" where
  "insert_word [] (Node e cs) = Node True cs"
| "insert_word (c # s) (Node e cs) =
     Node e (AList.update c
       (insert_word s (case map_of cs c of None \<Rightarrow> new_TrieNode | Some child \<Rightarrow> child)) cs)"

text \<open>The outer loop of \<open>buildTrie\<close>, over the strings, from a given root.\<close>

fun buildTrie_from :: "bool \<Rightarrow> trie \<Rightarrow> string list \<Rightarrow> trie" where
  "buildTrie_from ci root [] = root"
| "buildTrie_from ci root (str # strs) =
     buildTrie_from ci (insert_word (if ci then toLowerCase str else str) root) strs"

definition buildTrie :: "bool \<Rightarrow> string list \<Rightarrow> trie" where
  "buildTrie ci strs = buildTrie_from ci new_TrieNode strs"

text \<open>\<open>trieToRegex\<close>; \<open>alternatives\<close> is its loop over \<open>node.children\<close>, which pushes
  at most one alternative for each child.\<close>

fun trieToRegex :: "trie \<Rightarrow> string"
  and alternatives :: "(char \<times> trie) list \<Rightarrow> string list" where
  "trieToRegex (Node e cs) =
     (if cs = [] then []
      else (let alts = alternatives cs in
            if length alts = 0 then []
            else if length alts = 1 then alts ! 0
            else ''(?:'' @ join ''|'' alts @ '')''))"
| "alternatives [] = []"
| "alternatives ((c, childNode) # rest) =
     (let childPattern = trieToRegex childNode in
      (if isEndOfWord childNode \<and> children childNode = [] then [escapeRegexChar c]
       else if isEndOfWord childNode \<and> children childNode \<noteq> [] then
         (if childPattern \<noteq> [] then [escapeRegexChar c @ ''(?:'' @ childPattern @ '')?'']
          else [escapeRegexChar c])
       else if children childNode \<noteq> [] then [escapeRegexChar c @ childPattern]
       else [])
      @ alternatives rest)"

subsection \<open>The entry point\<close>

text \<open>\<open>strings.filter(s => s && typeof s === 'string')\<close>: the non-empty strings.\<close>

fun usable :: "jsvalue list \<Rightarrow> string list" where
  "usable [] = []"
| "usable (JString s # vs) = (if s \<noteq> [] then s # usable vs else usable vs)"
| "usable (v # vs) = usable vs"

text \<open>\<open>[...new Set(xs)]\<close>: a \<open>Set\<close> keeps the first occurrence of each value, in
  insertion order.\<close>

fun set_add_all :: "'a list \<Rightarrow> 'a list \<Rightarrow> 'a list" where
  "set_add_all seen [] = seen"
| "set_add_all seen (x # xs) = set_add_all (if x \<in> set seen then seen else seen @ [x]) xs"

definition uniqueStrings :: "jsvalue list \<Rightarrow> string list" where
  "uniqueStrings vs = set_add_all [] (usable vs)"

definition createOptimizedRegex :: "jsvalue \<Rightarrow> options \<Rightarrow> error + string" where
  "createOptimizedRegex strings opts =
     (case strings of
        JArray vs \<Rightarrow>
          if length vs = 0 then Inl (Error ''Input must be a non-empty array of strings'')
          else if length (uniqueStrings vs) = 0 then Inl (Error ''No valid strings provided'')
          else (let pattern = trieToRegex (buildTrie (opt_caseInsensitive opts) (uniqueStrings vs))
                in Inr (if opt_wordBoundaries opts then [CHR 0x5C, CHR ''b''] @ pattern @ [CHR 0x5C, CHR ''b'']
                        else pattern))
      | _ \<Rightarrow> Inl (Error ''Input must be a non-empty array of strings''))"

subsection \<open>The SLua standard-library rules\<close>

text \<open>
  The script reads \<open>slua.libraries\<close>, an object from namespace to library. A library may
  have \<open>functions\<close> and \<open>constants\<close> (the fields \<open>lib_functions\<close> and \<open>lib_constants\<close>);
  an element of either is an array of entries, an
  object with a \<open>list\<close> of entries, or an entry. Of an entry only its \<open>name\<close> is read.
\<close>

record entry =
  name :: string

datatype item = ItemArray "entry list" | ItemWithList "entry list" | ItemEntry entry

record library =
  lib_functions :: "item list option"
  lib_constants :: "item list option"

type_synonym libraries = "(string \<times> library) list"

text \<open>The callback \<open>item => Array.isArray(item)? item : ('list' in item? item.list : item)\<close>
  under \<open>flatMap\<close>.\<close>

fun item_entries :: "item \<Rightarrow> entry list" where
  "item_entries (ItemArray es) = es"
| "item_entries (ItemWithList es) = es"
| "item_entries (ItemEntry e) = [e]"

definition startsWith :: "string \<Rightarrow> string \<Rightarrow> bool" where
  "startsWith s pre = (take (length pre) s = pre)"

text \<open>\<open>slua.libraries.global.functions.flatMap(...).map(item => item.name)\<close>, and the same
  for \<open>constants\<close>.\<close>

definition globalFunctions :: "libraries \<Rightarrow> error + string list" where
  "globalFunctions libs =
     (case map_of libs ''global'' of
        None \<Rightarrow> Inl TypeError
      | Some lib \<Rightarrow>
          (case lib_functions lib of
             None \<Rightarrow> Inl TypeError
           | Some items \<Rightarrow> Inr (map name (concat (map item_entries items)))))"

definition globalConstants :: "libraries \<Rightarrow> error + string list" where
  "globalConstants libs =
     (case map_of libs ''global'' of
        None \<Rightarrow> Inl TypeError
      | Some lib \<Rightarrow>
          (case lib_constants lib of
             None \<Rightarrow> Inl TypeError
           | Some items \<Rightarrow> Inr (map name (concat (map item_entries items)))))"

text \<open>\<open>(lib.functions || []).flatMap(...).map(item => namespace + '.' + item.name)\<close>.\<close>

definition qualified_names :: "string \<Rightarrow> item list option \<Rightarrow> string list" where
  "qualified_names namespace member =
     map (\<lambda>item. namespace @ ''.'' @ name item)
       (concat (map item_entries (case member of None \<Rightarrow> [] | Some items \<Rightarrow> items)))"

definition luauFunctions :: "libraries \<Rightarrow> string list" where
  "luauFunctions libs =
     filter (\<lambda>item. length item \<noteq> 0)
       (concat (map (\<lambda>(namespace, lib). qualified_names namespace (lib_functions lib))
         (filter (\<lambda>(key, lib). \<not> startsWith (toLowerCase key) ''ll'')
           (filter (\<lambda>(key, lib). key \<noteq> ''global'') libs))))"

definition luauConstants :: "libraries \<Rightarrow> string list" where
  "luauConstants libs =
     filter (\<lambda>item. length item \<noteq> 0)
       (concat (map (\<lambda>(namespace, lib). qualified_names namespace (lib_constants lib))
         (filter (\<lambda>(key, lib). \<not> startsWith (toLowerCase key) ''ll'')
           (filter (\<lambda>(key, lib). key \<noteq> ''global'') libs))))"

definition platformFunctions :: "libraries \<Rightarrow> string list" where
  "platformFunctions libs =
     filter (\<lambda>item. length item \<noteq> 0)
       (concat (map (\<lambda>(namespace, lib). qualified_names namespace (lib_functions lib))
         (filter (\<lambda>(key, lib). startsWith (toLowerCase key) ''ll'') libs)))"

definition platformConstants :: "libraries \<Rightarrow> string list" where
  "platformConstants libs =
     filter (\<lambda>item. length item \<noteq> 0)
       (concat (map (\<lambda>(namespace, lib). qualified_names namespace (lib_constants lib))
         (filter (\<lambda>(key, lib). startsWith (toLowerCase key) ''ll'') libs)))"

text \<open>A rule \<open>{ name, match }\<close> of the grammar.\<close>

datatype rule = Rule (rule_name: string) (rule_match: string)

text \<open>The prefix \<open>(?<![^.]\\.|:)\<close> that the script puts before each pattern.\<close>

definition lookbehind :: string where
  "lookbehind = ''(?<![^.]'' @ CHR 0x5C # ''.|:)''"

text \<open>\<open>if(vocabulary.length) standard.push({ name, match: '(?<![^.]\\.|:)' +
  createOptimizedRegex(vocabulary) })\<close>; an exception of the call ends the script.\<close>

definition push_rule :: "string \<Rightarrow> string list \<Rightarrow> rule list \<Rightarrow> error + rule list" where
  "push_rule nm vocabulary standard =
     (if length vocabulary \<noteq> 0 then
        (case createOptimizedRegex (JArray (map JString vocabulary)) no_options of
           Inl e \<Rightarrow> Inl e
         | Inr pattern \<Rightarrow> Inr (standard @ [Rule nm (lookbehind @ pattern)]))
      else Inr standard)"

definition and_then :: "error + 'a \<Rightarrow> ('a \<Rightarrow> error + 'b) \<Rightarrow> error + 'b" where
  "and_then r f = (case r of Inl e \<Rightarrow> Inl e | Inr x \<Rightarrow> f x)"

text \<open>The value assigned to \<open>sluaGrammar.repository.standard_library.patterns\<close>.\<close>

definition standard :: "libraries \<Rightarrow> error + rule list" where
  "standard libs =
     and_then (globalFunctions libs) (\<lambda>gf.
     and_then (globalConstants libs) (\<lambda>gc.
     and_then (push_rule ''support.function.luau'' gf []) (\<lambda>s1.
     and_then (push_rule ''constant.language.luau'' gc s1) (\<lambda>s2.
     and_then (push_rule ''support.function.luau'' (luauFunctions libs) s2) (\<lambda>s3.
     and_then (push_rule ''support.constant.luau'' (luauConstants libs) s3) (\<lambda>s4.
     and_then (push_rule ''support.function.luau'' (platformFunctions libs) s4) (\<lambda>s5.
     push_rule ''support.constant.luau'' (platformConstants libs) s5)))))))"

text \<open>A small \<open>slua.libraries\<close> on which the rules can be computed.\<close>

definition example_libraries :: libraries where
  "example_libraries =
     [(''global'', \<lparr>lib_functions = Some [ItemEntry \<lparr>name = ''print''\<rparr>], lib_constants = Some []\<rparr>),
      (''math'', \<lparr>lib_functions = Some [ItemArray [\<lparr>name = ''abs''\<rparr>, \<lparr>name = ''max''\<rparr>]],
                 lib_constants = Some [ItemEntry \<lparr>name = ''pi''\<rparr>]\<rparr>),
      (''ll'', \<lparr>lib_functions = Some [ItemWithList [\<lparr>name = ''Say''\<rparr>]], lib_constants = None\<rparr>)]"

subsection \<open>The regular-expression dialect\<close>

text \<open>
  The pattern is consumed by a regular-expression engine outside the script. To state what a
  pattern matches, the part of the dialect that the claims touch is modelled here: literal
  characters, backslash escapes of syntax characters, \<open>\\b\<close>, \<open>.\<close>, \<open>^\<close>, \<open>$\<close>,
  the quantifiers \<open>?\<close>, \<open>*\<close>, \<open>+\<close>, alternation, capturing groups and non-capturing
  groups. Anything else (classes, braces, lookaround, inline modifiers, other escapes) makes
  the pattern unsupported, and an unsupported pattern matches nothing.
\<close>

datatype token =
    TChar char
  | TEscape char
  | TDot
  | TStar
  | TPlus
  | TQuestion
  | TCaret
  | TDollar
  | TBar
  | TOpenGroup
  | TOpenNonCapturing
  | TOpenExtension
  | TClose
  | TUnsupported char
  | TDangling

definition single_token :: "char \<Rightarrow> token" where
  "single_token c =
     (if c = CHR ''.'' then TDot
      else if c = CHR ''*'' then TStar
      else if c = CHR ''+'' then TPlus
      else if c = CHR ''?'' then TQuestion
      else if c = CHR ''^'' then TCaret
      else if c = CHR ''$'' then TDollar
      else if c = CHR ''|'' then TBar
      else if c = CHR '')'' then TClose
      else if c = CHR ''['' \<or> c = CHR '']'' \<or> c = CHR ''{'' \<or> c = CHR ''}'' then TUnsupported c
      else TChar c)"

text \<open>Left to right: a backslash takes the next character with it; \<open>(?:\<close> opens a
  non-capturing group, \<open>(?\<close> followed by anything else opens an extension (lookaround,
  named group, inline modifier), any other \<open>(\<close> opens a capturing group.\<close>

fun tokenize :: "string \<Rightarrow> token list" where
  "tokenize [] = []"
| "tokenize (c # cs) =
     (if c = CHR 0x5C then
        (case cs of [] \<Rightarrow> [TDangling] | d # ds \<Rightarrow> TEscape d # tokenize ds)
      else if c = CHR ''('' then
        (case cs of
           [] \<Rightarrow> [TOpenGroup]
         | q # ds \<Rightarrow>
             if q = CHR ''?'' then
               (case ds of
                  [] \<Rightarrow> [TOpenExtension]
                | k # es \<Rightarrow> if k = CHR '':'' then TOpenNonCapturing # tokenize es
                            else TOpenExtension # tokenize ds)
             else TOpenGroup # tokenize cs)
      else single_token c # tokenize cs)"

datatype rx =
    Eps
  | Lit char
  | AnyChar
  | WordBoundary
  | LineStart
  | LineEnd
  | Seq rx rx
  | Alt rx rx
  | Opt rx
  | Star rx
  | Plus rx
  | NonCapturing rx
  | Capturing rx

fun seq_of :: "rx list \<Rightarrow> rx" where
  "seq_of [] = Eps"
| "seq_of [r] = r"
| "seq_of (r # rs) = Seq r (seq_of rs)"

fun alts_of :: "rx list \<Rightarrow> rx" where
  "alts_of [] = Eps"
| "alts_of [r] = r"
| "alts_of (r # rs) = Alt r (alts_of rs)"

text \<open>A frame of the parser: the alternatives of the group that are complete, and the atoms
  of the alternative being read.\<close>

type_synonym frame = "rx list \<times> rx list"

definition close_frame :: "frame \<Rightarrow> rx" where
  "close_frame f = alts_of (fst f @ [seq_of (snd f)])"

definition push_atom :: "rx \<Rightarrow> frame \<Rightarrow> frame" where
  "push_atom a f = (fst f, snd f @ [a])"

definition next_alternative :: "frame \<Rightarrow> frame" where
  "next_alternative f = (fst f @ [seq_of (snd f)], [])"

fun quantifiable :: "rx \<Rightarrow> bool" where
  "quantifiable (Lit c) = True"
| "quantifiable AnyChar = True"
| "quantifiable (NonCapturing r) = True"
| "quantifiable (Capturing r) = True"
| "quantifiable r = False"

definition quantify :: "(rx \<Rightarrow> rx) \<Rightarrow> frame \<Rightarrow> frame option" where
  "quantify q f =
     (if snd f \<noteq> [] \<and> quantifiable (last (snd f))
      then Some (fst f, butlast (snd f) @ [q (last (snd f))]) else None)"

definition syntaxCharacter :: "char \<Rightarrow> bool" where
  "syntaxCharacter c \<longleftrightarrow>
     c = CHR ''^'' \<or> c = CHR ''$'' \<or> c = CHR 0x5C \<or> c = CHR ''.'' \<or> c = CHR ''*'' \<or>
     c = CHR ''+'' \<or> c = CHR ''?'' \<or> c = CHR ''('' \<or> c = CHR '')'' \<or> c = CHR ''['' \<or>
     c = CHR '']'' \<or> c = CHR ''{'' \<or> c = CHR ''}'' \<or> c = CHR ''|''"

definition escape_atom :: "char \<Rightarrow> rx option" where
  "escape_atom c =
     (if syntaxCharacter c then Some (Lit c)
      else if c = CHR ''b'' then Some WordBoundary
      else None)"

fun parse :: "(frame \<times> bool) list \<Rightarrow> frame \<Rightarrow> token list \<Rightarrow> rx option" where
  "parse stk f [] = (if stk = [] then Some (close_frame f) else None)"
| "parse stk f (TChar c # ts) = parse stk (push_atom (Lit c) f) ts"
| "parse stk f (TEscape c # ts) =
     (case escape_atom c of None \<Rightarrow> None | Some a \<Rightarrow> parse stk (push_atom a f) ts)"
| "parse stk f (TDot # ts) = parse stk (push_atom AnyChar f) ts"
| "parse stk f (TCaret # ts) = parse stk (push_atom LineStart f) ts"
| "parse stk f (TDollar # ts) = parse stk (push_atom LineEnd f) ts"
| "parse stk f (TStar # ts) =
     (case quantify Star f of None \<Rightarrow> None | Some f' \<Rightarrow> parse stk f' ts)"
| "parse stk f (TPlus # ts) =
     (case quantify Plus f of None \<Rightarrow> None | Some f' \<Rightarrow> parse stk f' ts)"
| "parse stk f (TQuestion # ts) =
     (case quantify Opt f of None \<Rightarrow> None | Some f' \<Rightarrow> parse stk f' ts)"
| "parse stk f (TBar # ts) = parse stk (next_alternative f) ts"
| "parse stk f (TOpenGroup # ts) = parse ((f, True) # stk) ([], []) ts"
| "parse stk f (TOpenNonCapturing # ts) = parse ((f, False) # stk) ([], []) ts"
| "parse stk f (TClose # ts) =
     (case stk of
        [] \<Rightarrow> None
      | (g, capturing) # stk' \<Rightarrow>
          parse stk' (push_atom ((if capturing then Capturing else NonCapturing) (close_frame f)) g) ts)"
| "parse stk f (TOpenExtension # ts) = None"
| "parse stk f (TUnsupported c # ts) = None"
| "parse stk f (TDangling # ts) = None"

definition parse_regex :: "string \<Rightarrow> rx option" where
  "parse_regex p = parse [] ([], []) (tokenize p)"

text \<open>Matching. A position in the subject is the pair of the characters before it, nearest
  first, and the characters after it. \<open>run\<close> lists the positions where a match that
  starts at the given position can end, in the order a backtracking engine tries them.\<close>

type_synonym position = "string \<times> string"

definition same_char :: "bool \<Rightarrow> char \<Rightarrow> char \<Rightarrow> bool" where
  "same_char ci c d = (if ci then toLowerCase_char c = toLowerCase_char d else c = d)"

definition word_char :: "char \<Rightarrow> bool" where
  "word_char c \<longleftrightarrow>
     (let n = (of_char c :: nat) in
      (48 \<le> n \<and> n \<le> 57) \<or> (65 \<le> n \<and> n \<le> 90) \<or> (97 \<le> n \<and> n \<le> 122) \<or> n = 95)"

definition word_next :: "string \<Rightarrow> bool" where
  "word_next s = (case s of [] \<Rightarrow> False | c # _ \<Rightarrow> word_char c)"

fun star_iter :: "nat \<Rightarrow> (position \<Rightarrow> position list) \<Rightarrow> position \<Rightarrow> position list" where
  "star_iter 0 step pos = [pos]"
| "star_iter (Suc n) step pos =
     concat (map (star_iter n step)
       (filter (\<lambda>pos'. length (snd pos') < length (snd pos)) (step pos))) @ [pos]"

fun run :: "bool \<Rightarrow> rx \<Rightarrow> position \<Rightarrow> position list" where
  "run ci Eps pos = [pos]"
| "run ci (Lit c) pos =
     (case snd pos of
        [] \<Rightarrow> []
      | d # s \<Rightarrow> if same_char ci c d then [(d # fst pos, s)] else [])"
| "run ci AnyChar pos =
     (case snd pos of
        [] \<Rightarrow> []
      | d # s \<Rightarrow> if d = CHR 0x0A \<or> d = CHR 0x0D then [] else [(d # fst pos, s)])"
| "run ci WordBoundary pos =
     (if word_next (fst pos) \<noteq> word_next (snd pos) then [pos] else [])"
| "run ci LineStart pos = (if fst pos = [] then [pos] else [])"
| "run ci LineEnd pos = (if snd pos = [] then [pos] else [])"
| "run ci (Seq r1 r2) pos = concat (map (run ci r2) (run ci r1 pos))"
| "run ci (Alt r1 r2) pos = run ci r1 pos @ run ci r2 pos"
| "run ci (Opt r) pos = run ci r pos @ [pos]"
| "run ci (Star r) pos = star_iter (length (snd pos)) (run ci r) pos"
| "run ci (Plus r) pos =
     concat (map (\<lambda>pos'. star_iter (length (snd pos')) (run ci r) pos') (run ci r pos))"
| "run ci (NonCapturing r) pos = run ci r pos"
| "run ci (Capturing r) pos = run ci r pos"

text \<open>The whole-string test: some way of matching the pattern from the start of the subject
  ends at its end.\<close>

definition matches_whole :: "bool \<Rightarrow> string \<Rightarrow> string \<Rightarrow> bool" where
  "matches_whole ci p s =
     (case parse_regex p of
        None \<Rightarrow> False
      | Some r \<Rightarrow> list_ex (\<lambda>pos. snd pos = []) (run ci r ([], s)))"

text \<open>Searching: the match found at an offset is the first one in the engine's order; the
  search returns the match at the smallest offset that has one, as (start, end).\<close>

definition match_at :: "bool \<Rightarrow> rx \<Rightarrow> string \<Rightarrow> nat \<Rightarrow> (nat \<times> nat) option" where
  "match_at ci r text i =
     (case run ci r (rev (take i text), drop i text) of
        [] \<Rightarrow> None
      | pos # _ \<Rightarrow> Some (i, length (fst pos)))"

fun first_match :: "(nat \<Rightarrow> (nat \<times> nat) option) \<Rightarrow> nat list \<Rightarrow> (nat \<times> nat) option" where
  "first_match f [] = None"
| "first_match f (i # is) = (case f i of None \<Rightarrow> first_match f is | Some m \<Rightarrow> Some m)"

definition search :: "bool \<Rightarrow> string \<Rightarrow> string \<Rightarrow> (nat \<times> nat) option" where
  "search ci p text =
     (case parse_regex p of
        None \<Rightarrow> None
      | Some r \<Rightarrow> first_match (match_at ci r text) [0 ..< Suc (length text)])"

subsection \<open>The words and the nodes of a prefix tree\<close>


text \<open>All nodes of a tree, the root first; \<open>child_nodes\<close> lists the nodes below the root.\<close>

fun nodes :: "trie \<Rightarrow> trie list"
  and child_nodes :: "(char \<times> trie) list \<Rightarrow> trie list" where
  "nodes (Node e cs) = Node e cs # child_nodes cs"
| "child_nodes [] = []"
| "child_nodes ((c, t) # rest) = nodes t @ child_nodes rest"

text \<open>The node reached from a node along a path, and the keys of its \<open>children\<close> map in
  the order of the map (none when the path leaves the tree).\<close>

fun subtrie :: "trie \<Rightarrow> string \<Rightarrow> trie option" where
  "subtrie t [] = Some t"
| "subtrie t (c # path) =
     (case map_of (children t) c of None \<Rightarrow> None | Some child \<Rightarrow> subtrie child path)"

definition keys_at :: "trie \<Rightarrow> string \<Rightarrow> char list" where
  "keys_at t path = (case subtrie t path of None \<Rightarrow> [] | Some n \<Rightarrow> map fst (children n))"

text \<open>The characters that follow a path in the strings that extend it, in the order of the
  strings.\<close>

definition next_chars :: "string \<Rightarrow> string list \<Rightarrow> char list" where
  "next_chars path strs =
     map (\<lambda>s. s ! length path)
       (filter (\<lambda>s. length path < length s \<and> take (length path) s = path) strs)"

text \<open>The shape of the trees that \<open>buildTrie\<close> makes: the keys of a \<open>children\<close> map are
  distinct, and a node below the root is the end of a word or has children.\<close>

fun well_formed :: "trie \<Rightarrow> bool"
  and well_formed_children :: "(char \<times> trie) list \<Rightarrow> bool" where
  "well_formed (Node e cs) = (distinct (map fst cs) \<and> well_formed_children cs)"
| "well_formed_children [] = True"
| "well_formed_children ((c, t) # rest) =
     ((isEndOfWord t \<or> children t \<noteq> []) \<and> well_formed t \<and> well_formed_children rest)"

subsection \<open>The specification's wording of the compiler\<close>

text \<open>Filtering to the non-empty strings and keeping the first occurrence of each.\<close>

fun first_occurrences :: "'a list \<Rightarrow> 'a list" where
  "first_occurrences [] = []"
| "first_occurrences (x # xs) = x # first_occurrences (removeAll x xs)"

fun nonempty_string :: "jsvalue \<Rightarrow> bool" where
  "nonempty_string (JString s) = (s \<noteq> [])"
| "nonempty_string v = False"

fun string_of :: "jsvalue \<Rightarrow> string" where
  "string_of (JString s) = s"
| "string_of v = []"

definition filterDedup :: "jsvalue list \<Rightarrow> string list" where
  "filterDedup vs = first_occurrences (map string_of (filter nonempty_string vs))"

text \<open>The alternative that the specification gives for a child reached by \<open>c\<close>, from the
  child's fragment, and the way it combines the alternatives of a node.\<close>

definition spec_alternative :: "char \<Rightarrow> trie \<Rightarrow> string \<Rightarrow> string" where
  "spec_alternative c child childFragment =
     (if isEndOfWord child \<and> children child = [] then escapeRegexChar c
      else if isEndOfWord child then escapeRegexChar c @ ''(?:'' @ childFragment @ '')?''
      else escapeRegexChar c @ childFragment)"

fun spec_combine :: "string list \<Rightarrow> string" where
  "spec_combine [] = []"
| "spec_combine [a] = a"
| "spec_combine alts = ''(?:'' @ join ''|'' alts @ '')''"

subsection \<open>Reading the emitted pattern back\<close>

text \<open>The token of a character as \<open>escapeRegexChar\<close> writes it.\<close>

definition lit_token :: "char \<Rightarrow> token" where
  "lit_token c = (if c \<in> set specialChars then TEscape c else TChar c)"

text \<open>The tokens that \<open>trieToRegex\<close> writes.\<close>

fun emitted_token :: "token \<Rightarrow> bool" where
  "emitted_token (TChar c) = (c \<notin> set specialChars)"
| "emitted_token (TEscape c) = (c \<in> set specialChars)"
| "emitted_token TOpenNonCapturing = True"
| "emitted_token TClose = True"
| "emitted_token TBar = True"
| "emitted_token TQuestion = True"
| "emitted_token t = False"

text \<open>A piece of pattern text that lexes to the same tokens whatever follows it, all of them
  among the tokens above.\<close>

definition lexes_to :: "string \<Rightarrow> token list \<Rightarrow> bool" where
  "lexes_to s ts \<longleftrightarrow> (\<forall>rest. tokenize (s @ rest) = ts @ tokenize rest)"

definition emitted_text :: "string \<Rightarrow> bool" where
  "emitted_text s \<longleftrightarrow> (\<exists>ts. lexes_to s ts \<and> list_all emitted_token ts)"

text \<open>The atoms that the parser appends to the sequence it is reading when it reads the
  fragment of a node, and for each alternative of the node the atoms of that alternative.\<close>

fun trie_atoms :: "trie \<Rightarrow> rx list"
  and alt_atoms :: "(char \<times> trie) list \<Rightarrow> rx list list" where
  "trie_atoms (Node e cs) =
     (if cs = [] then []
      else (let alts = alt_atoms cs in
            if length alts = 0 then []
            else if length alts = 1 then alts ! 0
            else [NonCapturing (alts_of (map seq_of alts))]))"
| "alt_atoms [] = []"
| "alt_atoms ((c, childNode) # rest) =
     (if isEndOfWord childNode \<and> children childNode = [] then [[Lit c]]
      else if isEndOfWord childNode \<and> children childNode \<noteq> [] then
        (if trieToRegex childNode \<noteq> []
         then [[Lit c, Opt (NonCapturing (seq_of (trie_atoms childNode)))]]
         else [[Lit c]])
      else if children childNode \<noteq> [] then [Lit c # trie_atoms childNode]
      else [])
     @ alt_atoms rest"

text \<open>A piece of pattern text that makes the parser append the given atoms.\<close>

definition parses_to :: "string \<Rightarrow> rx list \<Rightarrow> bool" where
  "parses_to s atoms \<longleftrightarrow>
     (\<forall>stk alts sq rest.
        parse stk (alts, sq) (tokenize (s @ rest)) = parse stk (alts, sq @ atoms) (tokenize rest))"

text \<open>The number of capturing groups of a parsed pattern.\<close>

fun captures :: "rx \<Rightarrow> nat" where
  "captures (Capturing r) = Suc (captures r)"
| "captures (Seq r1 r2) = captures r1 + captures r2"
| "captures (Alt r1 r2) = captures r1 + captures r2"
| "captures (Opt r) = captures r"
| "captures (Star r) = captures r"
| "captures (Plus r) = captures r"
| "captures (NonCapturing r) = captures r"
| "captures r = 0"




text \<open>The form in which a string is compared: lowercased when case is ignored.\<close>

definition fold_case :: "bool \<Rightarrow> string \<Rightarrow> string" where
  "fold_case ci s = (if ci then toLowerCase s else s)"
section \<open>Properties\<close>

subsection \<open>Filtering and deduplication\<close>

lemma usable_filter: "usable vs = map string_of (filter nonempty_string vs)"
  by (induction vs rule: usable.induct) simp_all

lemma set_usable: "set (usable vs) = {s. s \<noteq> [] \<and> JString s \<in> set vs}"
  by (induction vs rule: usable.induct) auto

lemma set_add_all_first:
  "set_add_all seen xs = seen @ first_occurrences (filter (\<lambda>x. x \<notin> set seen) xs)"
proof (induction xs arbitrary: seen)
  case Nil
  then show ?case by simp
next
  case (Cons x xs)
  have "removeAll x (filter (\<lambda>y. y \<notin> set seen) xs) = filter (\<lambda>y. y \<notin> set (seen @ [x])) xs"
    by (induction xs) auto
  with Cons show ?case by simp
qed

lemma set_set_add_all: "set (set_add_all seen xs) = set seen \<union> set xs"
  by (induction xs arbitrary: seen) auto

lemma distinct_set_add_all: "distinct seen \<Longrightarrow> distinct (set_add_all seen xs)"
  by (induction xs arbitrary: seen) auto

lemma set_add_all_distinct: "distinct (seen @ xs) \<Longrightarrow> set_add_all seen xs = seen @ xs"
  by (induction xs arbitrary: seen) auto

lemma uniqueStrings_filterDedup: "uniqueStrings vs = filterDedup vs"
  by (simp add: uniqueStrings_def filterDedup_def set_add_all_first usable_filter)

lemma set_uniqueStrings: "set (uniqueStrings vs) = {s. s \<noteq> [] \<and> JString s \<in> set vs}"
  by (simp add: uniqueStrings_def set_set_add_all set_usable)

lemma distinct_uniqueStrings: "distinct (uniqueStrings vs)"
  by (simp add: uniqueStrings_def distinct_set_add_all)

lemma usable_map_JString: "usable (map JString ws) = filter (\<lambda>s. s \<noteq> []) ws"
  by (induction ws) auto

lemma usable_append: "usable (vs @ ws) = usable vs @ usable ws"
  by (induction vs rule: usable.induct) simp_all

lemma set_add_all_append: "set_add_all seen (xs @ ys) = set_add_all (set_add_all seen xs) ys"
  by (induction xs arbitrary: seen) auto

lemma uniqueStrings_idem: "uniqueStrings (map JString (uniqueStrings vs)) = uniqueStrings vs"
proof -
  have "filter (\<lambda>s. s \<noteq> []) (uniqueStrings vs) = uniqueStrings vs"
    using set_uniqueStrings [of vs] by (intro filter_True) auto
  then show ?thesis
    using distinct_uniqueStrings [of vs]
    by (simp add: uniqueStrings_def [of "map JString _"] usable_map_JString set_add_all_distinct)
qed

lemma uniqueStrings_snoc_empty: "uniqueStrings (vs @ [JString []]) = uniqueStrings vs"
  by (simp add: uniqueStrings_def usable_append)

lemma uniqueStrings_snoc_dup: "v \<in> set vs \<Longrightarrow> uniqueStrings (vs @ [v]) = uniqueStrings vs"
proof -
  assume v: "v \<in> set vs"
  have "usable [v] = [] \<or> (\<exists>s. usable [v] = [s] \<and> s \<in> set (usable vs))"
  proof (cases v)
    case (JString s)
    then show ?thesis using v by (cases "s = []") (simp_all add: set_usable)
  qed simp_all
  then show ?thesis
    by (auto simp: uniqueStrings_def usable_append set_add_all_append set_set_add_all)
qed

lemma createOptimizedRegex_valid:
  "uniqueStrings vs \<noteq> [] \<Longrightarrow>
   createOptimizedRegex (JArray vs) opts =
     Inr (let pattern = trieToRegex (buildTrie (opt_caseInsensitive opts) (uniqueStrings vs))
          in if opt_wordBoundaries opts then [CHR 0x5C, CHR ''b''] @ pattern @ [CHR 0x5C, CHR ''b'']
             else pattern)"
  by (auto simp: createOptimizedRegex_def uniqueStrings_def Let_def)

subsection \<open>The shape of the trees\<close>

lemma escapeRegexChar_nonempty: "escapeRegexChar c \<noteq> []"
  by (simp add: escapeRegexChar_def)

lemma well_formed_children_update:
  "well_formed_children cs \<Longrightarrow> well_formed t \<Longrightarrow> isEndOfWord t \<or> children t \<noteq> [] \<Longrightarrow>
   well_formed_children (AList.update c t cs)"
  by (induction cs) auto

lemma update_nonempty: "AList.update c t cs \<noteq> []"
  by (cases cs) auto

lemma insert_word_live: "isEndOfWord (insert_word w t) \<or> children (insert_word w t) \<noteq> []"
  by (cases w; cases t) (simp_all add: update_nonempty)

lemma map_of_well_formed:
  "well_formed_children cs \<Longrightarrow> map_of cs c = Some t \<Longrightarrow> well_formed t"
  by (induction cs) (auto split: if_splits)

lemma well_formed_insert_word: "well_formed t \<Longrightarrow> well_formed (insert_word w t)"
proof (induction w t rule: insert_word.induct)
  case (1 e cs)
  then show ?case by simp
next
  case (2 c s e cs)
  let ?child = "case map_of cs c of None \<Rightarrow> new_TrieNode | Some child \<Rightarrow> child"
  have "well_formed ?child"
    using 2(2) by (auto simp: new_TrieNode_def split: option.splits dest: map_of_well_formed)
  then have "well_formed (insert_word s ?child)" by (rule 2(1))
  then show ?case
    using 2(2) insert_word_live [of s ?child]
    by (simp add: well_formed_children_update distinct_update)
qed

lemma well_formed_buildTrie_from:
  "well_formed root \<Longrightarrow> well_formed (buildTrie_from ci root strs)"
  by (induction strs arbitrary: root) (simp_all add: well_formed_insert_word)

lemma well_formed_buildTrie: "well_formed (buildTrie ci strs)"
  by (simp add: buildTrie_def new_TrieNode_def well_formed_buildTrie_from)

lemma nodes_well_formed:
  shows "well_formed t \<Longrightarrow> n \<in> set (nodes t) \<Longrightarrow>
           well_formed n \<and> (n = t \<or> isEndOfWord n \<or> children n \<noteq> [])"
    and "well_formed_children cs \<Longrightarrow> n \<in> set (child_nodes cs) \<Longrightarrow>
           well_formed n \<and> (isEndOfWord n \<or> children n \<noteq> [])"
proof (induction t and cs rule: nodes_child_nodes.induct)
  case (1 e cs)
  then show ?case by auto
next
  case 2
  then show ?case by simp
next
  case (3 c t rest)
  then show ?case by (cases t) auto
qed

lemma trieToRegex_combine: "trieToRegex (Node e cs) = spec_combine (alternatives cs)"
proof (cases "alternatives cs")
  case Nil
  then show ?thesis by simp
next
  case (Cons a as)
  then show ?thesis by (cases as; cases cs) simp_all
qed

lemma spec_combine_nonempty: "as \<noteq> [] \<Longrightarrow> \<forall>a \<in> set as. a \<noteq> [] \<Longrightarrow> spec_combine as \<noteq> []"
  by (induction as rule: spec_combine.induct) simp_all

lemma alternatives_well_formed:
  shows "well_formed t \<Longrightarrow> children t \<noteq> [] \<Longrightarrow> trieToRegex t \<noteq> []"
    and "well_formed_children cs \<Longrightarrow>
           alternatives cs = map (\<lambda>(c, child). spec_alternative c child (trieToRegex child)) cs
           \<and> (\<forall>a \<in> set (alternatives cs). a \<noteq> [])"
proof (induction t and cs rule: trieToRegex_alternatives.induct)
  case (1 e cs)
  then have "alternatives cs \<noteq> []" "\<forall>a \<in> set (alternatives cs). a \<noteq> []"
    by auto
  then show ?case
    unfolding trieToRegex_combine by (rule spec_combine_nonempty)
next
  case 2
  then show ?case by simp
next
  case (3 c childNode rest)
  then show ?case
    by (cases childNode) (auto simp: spec_alternative_def escapeRegexChar_nonempty)
qed

lemma child_in_child_nodes:
  shows "n \<in> set (nodes t) \<Longrightarrow> (c, child) \<in> set (children n) \<Longrightarrow>
           child \<in> set (child_nodes (children t))"
    and "(n \<in> set (child_nodes cs) \<and> (c, child) \<in> set (children n)) \<or> (c, child) \<in> set cs \<Longrightarrow>
           child \<in> set (child_nodes cs)"
proof (induction t and cs rule: nodes_child_nodes.induct)
  case (1 e cs)
  then show ?case by auto
next
  case 2
  then show ?case by simp
next
  case (3 k t rest)
  then show ?case by (cases t) auto
qed

lemma child_nodes_subset: "set (child_nodes (children t)) \<subseteq> set (nodes t)"
  by (cases t) auto


subsection \<open>The order of the children\<close>

lemma keys_at_new_TrieNode: "keys_at new_TrieNode path = []"
  by (cases path) (simp_all add: keys_at_def new_TrieNode_def)

lemma keys_at_Cons:
  "keys_at (Node e cs) (c # path) =
     (case map_of cs c of None \<Rightarrow> [] | Some child \<Rightarrow> keys_at child path)"
  by (simp add: keys_at_def split: option.splits)

lemma keys_at_insert_word:
  "keys_at (insert_word w t) path =
     (if length path < length w \<and> take (length path) w = path
      then (if w ! length path \<in> set (keys_at t path) then keys_at t path
            else keys_at t path @ [w ! length path])
      else keys_at t path)"
proof (induction w t arbitrary: path rule: insert_word.induct)
  case (1 e cs)
  then show ?case by (cases path) (simp_all add: keys_at_def)
next
  case (2 c s e cs)
  let ?child = "case map_of cs c of None \<Rightarrow> new_TrieNode | Some child \<Rightarrow> child"
  show ?case
  proof (cases path)
    case Nil
    then show ?thesis by (simp add: keys_at_def update_keys image_iff)
  next
    case (Cons c' path')
    show ?thesis
    proof (cases "c' = c")
      case True
      have old: "keys_at (Node e cs) (c # path') = keys_at ?child path'"
        by (simp add: keys_at_Cons keys_at_new_TrieNode split: option.splits)
      have "keys_at (insert_word (c # s) (Node e cs)) (c # path') = keys_at (insert_word s ?child) path'"
        by (simp add: keys_at_Cons update_conv')
      then show ?thesis
        unfolding Cons True old by (simp add: 2 [of path'])
    next
      case False
      then have "keys_at (insert_word (c # s) (Node e cs)) (c' # path') = keys_at (Node e cs) (c' # path')"
        by (simp add: keys_at_Cons update_conv')
      then show ?thesis using False by (simp add: Cons)
    qed
  qed
qed

lemma keys_at_buildTrie_from:
  "keys_at (buildTrie_from ci root strs) path =
     set_add_all (keys_at root path) (next_chars path (map (fold_case ci) strs))"
proof (induction strs arbitrary: root)
  case Nil
  then show ?case by (simp add: next_chars_def)
next
  case (Cons str strs)
  show ?case
    by (simp add: Cons.IH keys_at_insert_word next_chars_def fold_case_def)
qed

lemma keys_at_buildTrie:
  "keys_at (buildTrie ci strs) path = first_occurrences (next_chars path (map (fold_case ci) strs))"
  by (simp add: buildTrie_def keys_at_buildTrie_from keys_at_new_TrieNode set_add_all_first)

lemma map_of_member: "distinct (map fst cs) \<Longrightarrow> (c, t) \<in> set cs \<Longrightarrow> map_of cs c = Some t"
  by simp

lemma nodes_subtrie:
  shows "well_formed t \<Longrightarrow> n \<in> set (nodes t) \<Longrightarrow> \<exists>path. subtrie t path = Some n"
    and "well_formed_children cs \<Longrightarrow> n \<in> set (child_nodes cs) \<Longrightarrow>
           \<exists>c child path. (c, child) \<in> set cs \<and> subtrie child path = Some n"
proof (induction t and cs rule: nodes_child_nodes.induct)
  case (1 e cs)
  show ?case
  proof (cases "n = Node e cs")
    case True
    then have "subtrie (Node e cs) [] = Some n" by simp
    then show ?thesis by blast
  next
    case False
    with 1 obtain c child path where c: "(c, child) \<in> set cs" and p: "subtrie child path = Some n"
      by auto
    have "map_of cs c = Some child" using 1(2) c by (intro map_of_member) simp_all
    with p have "subtrie (Node e cs) (c # path) = Some n" by simp
    then show ?thesis by blast
  qed
next
  case 2
  then show ?case by simp
next
  case (3 c t rest)
  from 3(3) have wf: "well_formed t" and wfr: "well_formed_children rest" by simp_all
  from 3(4) consider "n \<in> set (nodes t)" | "n \<in> set (child_nodes rest)" by auto
  then show ?case
  proof cases
    case 1
    then obtain path where "subtrie t path = Some n" using 3(1) [OF wf] by blast
    then show ?thesis by auto
  next
    case 2
    then obtain k child path where "(k, child) \<in> set rest" "subtrie child path = Some n"
      using 3(2) [OF wfr] by blast
    then show ?thesis by auto
  qed
qed

subsection \<open>The tokens of the emitted pattern\<close>

lemma specialChars_syntax: "c \<in> set specialChars \<longleftrightarrow> syntaxCharacter c"
  by (auto simp: specialChars_def syntaxCharacter_def)

lemma tokenize_plain:
  "c \<notin> set specialChars \<Longrightarrow> tokenize (c # rest) = TChar c # tokenize rest"
  by (auto simp: specialChars_def single_token_def)

lemma tokenize_escaped: "tokenize (CHR 0x5C # c # rest) = TEscape c # tokenize rest"
  by simp

lemma lexes_to_escapeRegexChar: "lexes_to (escapeRegexChar c) [lit_token c]"
  by (simp add: lexes_to_def escapeRegexChar_def lit_token_def tokenize_plain tokenize_escaped del: tokenize.simps)

lemma lexes_to_open: "lexes_to ''(?:'' [TOpenNonCapturing]"
  by (simp add: lexes_to_def)

lemma lexes_to_close: "lexes_to '')'' [TClose]"
  by (simp add: lexes_to_def single_token_def)

lemma lexes_to_question: "lexes_to ''?'' [TQuestion]"
  by (simp add: lexes_to_def single_token_def)

lemma lexes_to_bar: "lexes_to ''|'' [TBar]"
  by (simp add: lexes_to_def single_token_def)

lemma lexes_to_Nil: "lexes_to [] []"
  by (simp add: lexes_to_def)

lemma lexes_to_append: "lexes_to s ts \<Longrightarrow> lexes_to s' ts' \<Longrightarrow> lexes_to (s @ s') (ts @ ts')"
  by (simp add: lexes_to_def)

lemma emitted_text_Nil: "emitted_text []"
  unfolding emitted_text_def using lexes_to_Nil by force

lemma emitted_text_append: "emitted_text s \<Longrightarrow> emitted_text s' \<Longrightarrow> emitted_text (s @ s')"
  unfolding emitted_text_def using lexes_to_append by (metis list_all_append)

lemma emitted_text_escapeRegexChar: "emitted_text (escapeRegexChar c)"
  unfolding emitted_text_def using lexes_to_escapeRegexChar [of c]
  by (intro exI [of _ "[lit_token c]"]) (simp add: lit_token_def)

lemma emitted_text_open: "emitted_text ''(?:''"
  unfolding emitted_text_def using lexes_to_open by (intro exI [of _ "[TOpenNonCapturing]"]) simp

lemma emitted_text_close: "emitted_text '')''"
  unfolding emitted_text_def using lexes_to_close by (intro exI [of _ "[TClose]"]) simp

lemma emitted_text_question: "emitted_text ''?''"
  unfolding emitted_text_def using lexes_to_question by (intro exI [of _ "[TQuestion]"]) simp

lemma emitted_text_bar: "emitted_text ''|''"
  unfolding emitted_text_def using lexes_to_bar by (intro exI [of _ "[TBar]"]) simp

lemma emitted_text_join:
  "\<forall>a \<in> set as. emitted_text a \<Longrightarrow> emitted_text (join ''|'' as)"
proof (induction "''|''" as rule: join.induct)
  case 1
  then show ?case by (simp add: emitted_text_Nil)
next
  case (2 x)
  then show ?case by simp
next
  case (3 x y ys)
  then have "emitted_text x" "emitted_text (join ''|'' (y # ys))" by simp_all
  then show ?case
    using emitted_text_append [OF \<open>emitted_text x\<close> emitted_text_append [OF emitted_text_bar]]
    by simp
qed

lemma emitted_text_spec_combine:
  "\<forall>a \<in> set as. emitted_text a \<Longrightarrow> emitted_text (spec_combine as)"
proof (induction as rule: spec_combine.induct)
  case 1
  then show ?case by (simp add: emitted_text_Nil)
next
  case (2 a)
  then show ?case by simp
next
  case (3 a b bs)
  have "emitted_text (join ''|'' (a # b # bs))"
    by (rule emitted_text_join) (use 3 in simp)
  then have "emitted_text (''(?:'' @ join ''|'' (a # b # bs) @ '')'')"
    by (intro emitted_text_append emitted_text_open emitted_text_close)
  then show ?case by simp
qed

lemma emitted_text_trieToRegex:
  shows "emitted_text (trieToRegex t)"
    and "\<forall>a \<in> set (alternatives cs). emitted_text a"
proof (induction t and cs rule: trieToRegex_alternatives.induct)
  case (1 e cs)
  have "emitted_text (spec_combine (alternatives cs))"
  proof (cases "cs = []")
    case True
    then show ?thesis by (simp add: emitted_text_Nil)
  next
    case False
    then show ?thesis using 1 by (intro emitted_text_spec_combine) simp
  qed
  then show ?case by (simp only: trieToRegex_combine)
next
  case 2
  then show ?case by simp
next
  case (3 c childNode rest)
  have a: "emitted_text (escapeRegexChar c @ ''(?:'' @ trieToRegex childNode @ '')?'')"
    using emitted_text_append [OF emitted_text_close emitted_text_question] 3(1)
    by (intro emitted_text_append emitted_text_escapeRegexChar emitted_text_open) simp_all
  have b: "emitted_text (escapeRegexChar c @ trieToRegex childNode)"
    using 3(1) by (intro emitted_text_append emitted_text_escapeRegexChar) simp
  show ?case
    using a b 3(2) emitted_text_escapeRegexChar [of c] by (auto simp: Let_def)
qed

subsection \<open>Parsing the emitted pattern\<close>

lemma tokenize_open: "tokenize (CHR ''('' # CHR ''?'' # CHR '':'' # rest) = TOpenNonCapturing # tokenize rest"
  by simp

lemma tokenize_close: "tokenize (CHR '')'' # rest) = TClose # tokenize rest"
  by (simp add: single_token_def)

lemma tokenize_question: "tokenize (CHR ''?'' # rest) = TQuestion # tokenize rest"
  by (simp add: single_token_def)

lemma tokenize_bar: "tokenize (CHR ''|'' # rest) = TBar # tokenize rest"
  by (simp add: single_token_def)

lemma tokenize_escapeRegexChar:
  "tokenize (escapeRegexChar c @ rest) = lit_token c # tokenize rest"
  using lexes_to_escapeRegexChar [of c] by (simp add: lexes_to_def)

lemma parse_lit_token: "parse stk f (lit_token c # ts) = parse stk (push_atom (Lit c) f) ts"
  by (simp add: lit_token_def escape_atom_def specialChars_syntax)

lemma parses_to_Nil: "parses_to [] []"
  by (simp add: parses_to_def)

lemma parses_to_append:
  "parses_to s as \<Longrightarrow> parses_to s' as' \<Longrightarrow> parses_to (s @ s') (as @ as')"
  by (simp add: parses_to_def)

lemma parses_to_escapeRegexChar: "parses_to (escapeRegexChar c) [Lit c]"
  by (simp add: parses_to_def tokenize_escapeRegexChar parse_lit_token push_atom_def)

lemma parses_to_optional:
  assumes "parses_to s as"
  shows "parses_to (''(?:'' @ s @ '')?'') [Opt (NonCapturing (seq_of as))]"
  unfolding parses_to_def
proof (intro allI)
  fix stk alts sq rest
  have "parse stk (alts, sq) (tokenize ((''(?:'' @ s @ '')?'') @ rest)) =
        parse (((alts, sq), False) # stk) ([], []) (tokenize (s @ ('')?'' @ rest)))"
    by (simp del: tokenize.simps add: tokenize_open)
  also have "\<dots> = parse (((alts, sq), False) # stk) ([], [] @ as) (tokenize ('')?'' @ rest))"
    using assms unfolding parses_to_def by blast
  also have "\<dots> = parse stk (alts, sq @ [Opt (NonCapturing (seq_of as))]) (tokenize rest)"
    by (simp del: tokenize.simps add: tokenize_close tokenize_question push_atom_def
        close_frame_def quantify_def)
  finally show "parse stk (alts, sq) (tokenize ((''(?:'' @ s @ '')?'') @ rest)) =
        parse stk (alts, sq @ [Opt (NonCapturing (seq_of as))]) (tokenize rest)" .
qed

lemma parse_join:
  "list_all2 parses_to as ass \<Longrightarrow> as \<noteq> [] \<Longrightarrow>
   parse stk (alts, []) (tokenize (join ''|'' as @ rest)) =
   parse stk (alts @ map seq_of (butlast ass), last ass) (tokenize rest)"
proof (induction "''|''" as arbitrary: ass alts rule: join.induct)
  case 1
  then show ?case by simp
next
  case (2 x)
  then obtain a where ass: "ass = [a]" and a: "parses_to x a"
    by (auto simp: list_all2_Cons1)
  from a have "parse stk (alts, []) (tokenize (x @ rest)) = parse stk (alts, [] @ a) (tokenize rest)"
    unfolding parses_to_def by blast
  then show ?case by (simp add: ass)
next
  case (3 x y ys)
  then obtain a bs where ass: "ass = a # bs" and a: "parses_to x a"
    and bs: "list_all2 parses_to (y # ys) bs"
    by (auto simp: list_all2_Cons1)
  from bs have ne: "bs \<noteq> []" by auto
  have "parse stk (alts, []) (tokenize (join ''|'' (x # y # ys) @ rest)) =
        parse stk (alts, []) (tokenize (x @ (''|'' @ join ''|'' (y # ys) @ rest)))"
    by simp
  also have "\<dots> = parse stk (alts, [] @ a) (tokenize (''|'' @ join ''|'' (y # ys) @ rest))"
    using a unfolding parses_to_def by blast
  also have "\<dots> = parse stk (alts @ [seq_of a], []) (tokenize (join ''|'' (y # ys) @ rest))"
    by (simp del: tokenize.simps add: tokenize_bar next_alternative_def)
  also have "\<dots> = parse stk ((alts @ [seq_of a]) @ map seq_of (butlast bs), last bs) (tokenize rest)"
    by (rule 3(1) [OF bs]) simp
  finally show ?case using ne by (simp add: ass)
qed

lemma parses_to_group:
  assumes "list_all2 parses_to as ass" and "as \<noteq> []"
  shows "parses_to (''(?:'' @ join ''|'' as @ '')'') [NonCapturing (alts_of (map seq_of ass))]"
  unfolding parses_to_def
proof (intro allI)
  fix stk alts sq rest
  from assms have ne: "ass \<noteq> []" by auto
  have "parse stk (alts, sq) (tokenize ((''(?:'' @ join ''|'' as @ '')'') @ rest)) =
        parse (((alts, sq), False) # stk) ([], []) (tokenize (join ''|'' as @ ('')'' @ rest)))"
    by (simp del: tokenize.simps add: tokenize_open)
  also have "\<dots> = parse (((alts, sq), False) # stk) ([] @ map seq_of (butlast ass), last ass)
        (tokenize ('')'' @ rest))"
    by (rule parse_join [OF assms])
  also have "\<dots> = parse stk (alts, sq @ [NonCapturing (alts_of (map seq_of (butlast ass) @ [seq_of (last ass)]))])
        (tokenize rest)"
    by (simp del: tokenize.simps add: tokenize_close push_atom_def close_frame_def)
  also have "map seq_of (butlast ass) @ [seq_of (last ass)] = map seq_of ass"
    using ne by (metis append_butlast_last_id list.simps(8,9) map_append)
  finally show "parse stk (alts, sq) (tokenize ((''(?:'' @ join ''|'' as @ '')'') @ rest)) =
        parse stk (alts, sq @ [NonCapturing (alts_of (map seq_of ass))]) (tokenize rest)" .
qed

lemma parses_to_trieToRegex:
  shows "parses_to (trieToRegex t) (trie_atoms t)"
    and "list_all2 parses_to (alternatives cs) (alt_atoms cs)"
proof (induction t and cs rule: trieToRegex_alternatives.induct)
  case (1 e cs)
  show ?case
  proof (cases "cs = []")
    case True
    then show ?thesis by (simp add: parses_to_Nil)
  next
    case False
    with 1 have all: "list_all2 parses_to (alternatives cs) (alt_atoms cs)" by simp
    then have len: "length (alt_atoms cs) = length (alternatives cs)"
      by (simp add: list_all2_lengthD)
    consider "length (alternatives cs) = 0" | "length (alternatives cs) = 1"
      | "length (alternatives cs) \<noteq> 0" "length (alternatives cs) \<noteq> 1"
      by blast
    then show ?thesis
    proof cases
      case 1
      then show ?thesis using False len by (auto simp: parses_to_Nil Let_def)
    next
      case 2
      then have "parses_to (alternatives cs ! 0) (alt_atoms cs ! 0)"
        using all by (simp add: list_all2_conv_all_nth)
      then show ?thesis using False len 2 by (auto simp: Let_def)
    next
      case 3
      then have "alternatives cs \<noteq> []" by auto
      then have "parses_to (''(?:'' @ join ''|'' (alternatives cs) @ '')'')
          [NonCapturing (alts_of (map seq_of (alt_atoms cs)))]"
        by (rule parses_to_group [OF all])
      then show ?thesis using False len 3 by (auto simp: Let_def)
    qed
  qed
next
  case 2
  then show ?case by simp
next
  case (3 c childNode rest)
  have lit: "parses_to (escapeRegexChar c) [Lit c]" by (rule parses_to_escapeRegexChar)
  have a: "parses_to (escapeRegexChar c @ ''(?:'' @ trieToRegex childNode @ '')?'')
      ([Lit c] @ [Opt (NonCapturing (seq_of (trie_atoms childNode)))])"
    using 3(1) by (intro parses_to_append lit parses_to_optional) simp
  have b: "parses_to (escapeRegexChar c @ trieToRegex childNode) ([Lit c] @ trie_atoms childNode)"
    using 3(1) by (intro parses_to_append lit) simp
  show ?case
    using a b lit 3(2) by (auto simp: Let_def)
qed

subsection \<open>What the emitted pattern matches\<close>


















subsection \<open>The words of the tree\<close>














lemma parse_regex_trieToRegex: "parse_regex (trieToRegex t) = Some (seq_of (trie_atoms t))"
proof -
  have "parse [] ([], []) (tokenize (trieToRegex t @ [])) = parse [] ([], [] @ trie_atoms t) (tokenize [])"
    using parses_to_trieToRegex(1) [of t] unfolding parses_to_def by blast
  then show ?thesis by (simp add: parse_regex_def close_frame_def)
qed


subsection \<open>The pattern that the entry point returns\<close>

lemma tokenize_trieToRegex:
  "\<exists>ts. list_all emitted_token ts \<and> (\<forall>rest. tokenize (trieToRegex t @ rest) = ts @ tokenize rest)"
  using emitted_text_trieToRegex(1) [of t] unfolding emitted_text_def lexes_to_def by blast

lemma tokens_of_pattern:
  assumes "createOptimizedRegex strings opts = Inr p" and "tk \<in> set (tokenize p)"
  shows "emitted_token tk \<or> tk = TEscape (CHR ''b'')"
proof -
  from assms(1) obtain vs where strings: "strings = JArray vs"
    by (cases strings) (simp_all add: createOptimizedRegex_def)
  let ?body = "trieToRegex (buildTrie (opt_caseInsensitive opts) (uniqueStrings vs))"
  obtain ts where ts: "list_all emitted_token ts"
    and tok: "\<And>rest. tokenize (?body @ rest) = ts @ tokenize rest"
    using tokenize_trieToRegex by blast
  have p: "p = (if opt_wordBoundaries opts then [CHR 0x5C, CHR ''b''] @ ?body @ [CHR 0x5C, CHR ''b''] else ?body)"
    using assms(1) unfolding strings createOptimizedRegex_def
    by (simp add: Let_def split: if_splits)
  have "tokenize ?body = ts" using tok [of "[]"] by simp
  moreover have "tokenize ([CHR 0x5C, CHR ''b''] @ ?body @ [CHR 0x5C, CHR ''b'']) =
      TEscape (CHR ''b'') # ts @ [TEscape (CHR ''b'')]"
    using tok [of "[CHR 0x5C, CHR ''b'']"] by simp
  ultimately have "set (tokenize p) \<subseteq> insert (TEscape (CHR ''b'')) (set ts)"
    unfolding p by auto
  with assms(2) ts show ?thesis by (auto simp: list_all_iff)
qed

lemma captures_seq_of: "\<forall>a \<in> set as. captures a = 0 \<Longrightarrow> captures (seq_of as) = 0"
  by (induction as rule: seq_of.induct) simp_all

lemma captures_alts_of: "\<forall>a \<in> set as. captures a = 0 \<Longrightarrow> captures (alts_of as) = 0"
  by (induction as rule: alts_of.induct) simp_all

lemma captures_trie_atoms:
  shows "\<forall>a \<in> set (trie_atoms t). captures a = 0"
    and "\<forall>as \<in> set (alt_atoms cs). \<forall>a \<in> set as. captures a = 0"
proof (induction t and cs rule: trieToRegex_alternatives.induct)
  case (1 e cs)
  show ?case
  proof (cases "cs = []")
    case True
    then show ?thesis by simp
  next
    case False
    with 1 have all: "\<forall>as \<in> set (alt_atoms cs). \<forall>a \<in> set as. captures a = 0" by simp
    then have "captures (alts_of (map seq_of (alt_atoms cs))) = 0"
      by (intro captures_alts_of) (simp add: captures_seq_of)
    moreover have "\<forall>a \<in> set (alt_atoms cs ! 0). captures a = 0" if "length (alt_atoms cs) = 1"
      using all that by (metis nth_mem zero_less_one)
    ultimately show ?thesis using False by (auto simp: Let_def)
  qed
next
  case 2
  then show ?case by simp
next
  case (3 c childNode rest)
  then have "captures (seq_of (trie_atoms childNode)) = 0"
    by (intro captures_seq_of) simp
  with 3 show ?case by (auto simp: Let_def)
qed

lemma parse_regex_pattern:
  assumes "createOptimizedRegex (JArray vs) opts = Inr p"
  shows "parse_regex p =
     Some (seq_of (if opt_wordBoundaries opts
                   then WordBoundary # trie_atoms (buildTrie (opt_caseInsensitive opts) (uniqueStrings vs)) @ [WordBoundary]
                   else trie_atoms (buildTrie (opt_caseInsensitive opts) (uniqueStrings vs))))"
proof -
  let ?root = "buildTrie (opt_caseInsensitive opts) (uniqueStrings vs)"
  have p: "p = (if opt_wordBoundaries opts
      then [CHR 0x5C, CHR ''b''] @ trieToRegex ?root @ [CHR 0x5C, CHR ''b''] else trieToRegex ?root)"
    using assms unfolding createOptimizedRegex_def by (simp add: Let_def split: if_splits)
  have step: "parse [] ([], [WordBoundary]) (tokenize (trieToRegex ?root @ [CHR 0x5C, CHR ''b''])) =
      parse [] ([], [WordBoundary] @ trie_atoms ?root) (tokenize [CHR 0x5C, CHR ''b''])"
    using parses_to_trieToRegex(1) [of ?root] unfolding parses_to_def by blast
  have "parse_regex ([CHR 0x5C, CHR ''b''] @ trieToRegex ?root @ [CHR 0x5C, CHR ''b'']) =
      Some (seq_of (WordBoundary # trie_atoms ?root @ [WordBoundary]))"
    using step
    by (simp add: parse_regex_def escape_atom_def syntaxCharacter_def push_atom_def close_frame_def)
  then show ?thesis
    unfolding p by (simp add: parse_regex_trieToRegex)
qed


lemma insert_word_toLowerCase:
  "buildTrie_from True root strs = buildTrie_from False root (map toLowerCase strs)"
  by (induction strs arbitrary: root) simp_all

subsection \<open>The rules of the standard library\<close>

lemma and_then_Inr: "and_then r f = Inr y \<longleftrightarrow> (\<exists>x. r = Inr x \<and> f x = Inr y)"
  by (cases r) (simp_all add: and_then_def)

lemma push_rule_Inr:
  "push_rule nm vocabulary s = Inr s' \<longleftrightarrow>
     (vocabulary = [] \<and> s' = s) \<or>
     (vocabulary \<noteq> [] \<and>
      (\<exists>p. createOptimizedRegex (JArray (map JString vocabulary)) no_options = Inr p \<and>
           s' = s @ [Rule nm (lookbehind @ p)]))"
  by (auto simp: push_rule_def split: sum.splits)

lemma push_rule_mono: "push_rule nm vocabulary s = Inr s' \<Longrightarrow> set s \<subseteq> set s'"
  by (auto simp: push_rule_Inr)

lemma push_rule_prefixed:
  "push_rule nm vocabulary s = Inr s' \<Longrightarrow>
   \<forall>r \<in> set s. \<exists>rest. rule_match r = lookbehind @ rest \<Longrightarrow>
   \<forall>r \<in> set s'. \<exists>rest. rule_match r = lookbehind @ rest"
  by (auto simp: push_rule_Inr)

lemma push_rule_written:
  "push_rule nm vocabulary s = Inr s' \<Longrightarrow> vocabulary \<noteq> [] \<Longrightarrow>
   \<exists>p. createOptimizedRegex (JArray (map JString vocabulary)) no_options = Inr p \<and>
       Rule nm (lookbehind @ p) \<in> set s'"
  by (auto simp: push_rule_Inr)

subsection \<open>The claims\<close>



text \<open>
  Claim C2. In every node of a tree made by \<open>buildTrie\<close>, the loop of \<open>trieToRegex\<close>
  emits one alternative for each child, in the order of the \<open>children\<close> map: the escaped
  character alone for a child that ends a word and has no children, the escaped character
  followed by \<open>(?:\<close> fragment \<open>)?\<close> for a child that ends a word and has children, the
  escaped character followed by the fragment for a child that does not end a word. The
  fragment of the node is empty for no alternative, the alternative itself for one, and the
  alternatives joined with \<open>|\<close> inside \<open>(?:\<close> \<open>)\<close> for two or more. The order of the
  \<open>children\<close> map is the order of insertion: the node lies at a path, and its keys are the
  characters that follow the path in the inserted strings, each at its first occurrence.
\<close>

theorem trieToRegex_per_child:
  assumes "node \<in> set (nodes (buildTrie ci strs))"
  shows "alternatives (children node) =
           map (\<lambda>(c, child). spec_alternative c child (trieToRegex child)) (children node)
         \<and> trieToRegex node = spec_combine (alternatives (children node))
         \<and> (\<exists>path. subtrie (buildTrie ci strs) path = Some node
              \<and> map fst (children node) =
                  first_occurrences (next_chars path (map (fold_case ci) strs)))"
proof -
  have "well_formed node"
    using nodes_well_formed(1) [OF well_formed_buildTrie assms] by simp
  then have "well_formed_children (children node)" by (cases node) simp
  then have emit: "alternatives (children node) =
           map (\<lambda>(c, child). spec_alternative c child (trieToRegex child)) (children node)
         \<and> trieToRegex node = spec_combine (alternatives (children node))"
    using alternatives_well_formed(2) [of "children node"] trieToRegex_combine [of "isEndOfWord node" "children node"]
    by simp
  obtain path where path: "subtrie (buildTrie ci strs) path = Some node"
    using nodes_subtrie(1) [OF well_formed_buildTrie assms] by blast
  then have "map fst (children node) = first_occurrences (next_chars path (map (fold_case ci) strs))"
    using keys_at_buildTrie [of ci strs path] by (simp add: keys_at_def)
  with emit path show ?thesis by blast
qed

theorem trieToRegex_per_child_witness:
  "Node False [(CHR ''b'', Node True []), (CHR ''c'', Node True [])]
     \<in> set (nodes (buildTrie False [''ab'', ''x'', ''ac'', ''ab'']))
   \<and> alternatives [(CHR ''b'', Node True []), (CHR ''c'', Node True [])] = [''b'', ''c'']
   \<and> trieToRegex (Node False [(CHR ''b'', Node True []), (CHR ''c'', Node True [])]) = ''(?:b|c)''
   \<and> subtrie (buildTrie False [''ab'', ''x'', ''ac'', ''ab'']) ''a''
       = Some (Node False [(CHR ''b'', Node True []), (CHR ''c'', Node True [])])
   \<and> first_occurrences (next_chars ''a'' (map (fold_case False) [''ab'', ''x'', ''ac'', ''ab''])) = ''bc''"
proof -
  let ?node = "Node False [(CHR ''b'', Node True []), (CHR ''c'', Node True [])]"
  have mem: "?node \<in> set (nodes (buildTrie False [''ab'', ''x'', ''ac'', ''ab'']))"
    by code_simp
  have sub: "subtrie (buildTrie False [''ab'', ''x'', ''ac'', ''ab'']) ''a'' = Some ?node"
    by code_simp
  have nc: "first_occurrences (next_chars ''a'' (map (fold_case False) [''ab'', ''x'', ''ac'', ''ab''])) = ''bc''"
    by code_simp
  have "alternatives (children ?node) =
           map (\<lambda>(c, child). spec_alternative c child (trieToRegex child)) (children ?node)
         \<and> trieToRegex ?node = spec_combine (alternatives (children ?node))"
    using trieToRegex_per_child [OF mem] by blast
  then have "alternatives [(CHR ''b'', Node True []), (CHR ''c'', Node True [])] = [''b'', ''c'']"
    and "trieToRegex ?node = ''(?:b|c)''"
    by (simp_all add: spec_alternative_def escapeRegexChar_def specialChars_def)
  with mem sub nc show ?thesis by blast
qed

text \<open>
  Claim C3. \<open>createOptimizedRegex\<close> throws exactly when its first argument is not an array
  or no non-empty string is among the elements of the array; in every other case it returns
  a pattern. The empty array and the arrays of empty strings are among the inputs that throw.
\<close>

theorem createOptimizedRegex_error_iff:
  "((\<exists>msg. createOptimizedRegex strings opts = Inl (Error msg)) \<longleftrightarrow>
      (\<forall>vs. strings = JArray vs \<longrightarrow> {s. s \<noteq> [] \<and> JString s \<in> set vs} = {}))
   \<and> ((\<exists>p. createOptimizedRegex strings opts = Inr p) \<longleftrightarrow>
      (\<exists>vs. strings = JArray vs \<and> {s. s \<noteq> [] \<and> JString s \<in> set vs} \<noteq> {}))
   \<and> (\<exists>msg. createOptimizedRegex (JArray []) opts = Inl (Error msg))
   \<and> ((\<forall>v \<in> set vs. v = JString []) \<longrightarrow>
        (\<exists>msg. createOptimizedRegex (JArray vs) opts = Inl (Error msg)))"
proof -
  have empty_iff: "uniqueStrings ws = [] \<longleftrightarrow> {s. s \<noteq> [] \<and> JString s \<in> set ws} = {}" for ws
    using set_uniqueStrings [of ws] by (metis set_empty)
  have arr: "createOptimizedRegex (JArray ws) opts =
      (if ws = [] then Inl (Error ''Input must be a non-empty array of strings'')
       else if uniqueStrings ws = [] then Inl (Error ''No valid strings provided'')
       else Inr (let pattern = trieToRegex (buildTrie (opt_caseInsensitive opts) (uniqueStrings ws))
          in if opt_wordBoundaries opts then [CHR 0x5C, CHR ''b''] @ pattern @ [CHR 0x5C, CHR ''b'']
             else pattern))" for ws
    by (simp add: createOptimizedRegex_def Let_def)
  have nil: "uniqueStrings [] = []" by (simp add: uniqueStrings_def)
  have a: "(\<exists>msg. createOptimizedRegex (JArray ws) opts = Inl (Error msg)) \<longleftrightarrow> uniqueStrings ws = []" for ws
    using nil by (auto simp: arr)
  have b: "(\<exists>p. createOptimizedRegex (JArray ws) opts = Inr p) \<longleftrightarrow> uniqueStrings ws \<noteq> []" for ws
    using nil by (auto simp: arr)
  have c: "\<exists>msg. createOptimizedRegex strings opts = Inl (Error msg)" if "\<forall>vs. strings \<noteq> JArray vs"
    using that by (cases strings) (simp_all add: createOptimizedRegex_def)
  have c': "\<not> (\<exists>p. createOptimizedRegex strings opts = Inr p)" if "\<forall>vs. strings \<noteq> JArray vs"
    using c [OF that] by auto
  have 1: "(\<exists>msg. createOptimizedRegex strings opts = Inl (Error msg)) \<longleftrightarrow>
      (\<forall>vs. strings = JArray vs \<longrightarrow> {s. s \<noteq> [] \<and> JString s \<in> set vs} = {})"
  proof (cases "\<exists>vs. strings = JArray vs")
    case True
    then obtain ws where "strings = JArray ws" by blast
    then show ?thesis using a [of ws] empty_iff [of ws] by simp
  next
    case False
    then show ?thesis using c by auto
  qed
  have 2: "(\<exists>p. createOptimizedRegex strings opts = Inr p) \<longleftrightarrow>
      (\<exists>vs. strings = JArray vs \<and> {s. s \<noteq> [] \<and> JString s \<in> set vs} \<noteq> {})"
  proof (cases "\<exists>vs. strings = JArray vs")
    case True
    then obtain ws where "strings = JArray ws" by blast
    then show ?thesis using b [of ws] empty_iff [of ws] by simp
  next
    case False
    then show ?thesis using c' by auto
  qed
  have 3: "\<exists>msg. createOptimizedRegex (JArray []) opts = Inl (Error msg)"
    by (simp add: arr)
  have 4: "(\<forall>v \<in> set vs. v = JString []) \<longrightarrow>
        (\<exists>msg. createOptimizedRegex (JArray vs) opts = Inl (Error msg))"
  proof
    assume "\<forall>v \<in> set vs. v = JString []"
    then have "{s. s \<noteq> [] \<and> JString s \<in> set vs} = {}" by auto
    then show "\<exists>msg. createOptimizedRegex (JArray vs) opts = Inl (Error msg)"
      using a empty_iff by simp
  qed
  from 1 2 3 4 show ?thesis by blast
qed

theorem createOptimizedRegex_error_iff_witness:
  "(\<exists>msg. createOptimizedRegex (JArray [JString [], JString []]) no_options = Inl (Error msg))
   \<and> (\<exists>msg. createOptimizedRegex JNull no_options = Inl (Error msg))
   \<and> (\<exists>p. createOptimizedRegex (JArray [JNumber 3, JString ''ab'']) no_options = Inr p)"
  using createOptimizedRegex_error_iff [of "JArray [JString [], JString []]" no_options "[JString [], JString []]"]
    createOptimizedRegex_error_iff [of JNull no_options "[]"]
    createOptimizedRegex_error_iff [of "JArray [JNumber 3, JString ''ab'']" no_options "[]"]
  by auto



text \<open>
  Claim C5. For an input with at least one non-empty string, the pattern returned is the
  fragment of the root between two \<open>\b\<close> unless \<open>wordBoundaries\<close> is given as \<open>false\<close>, and
  the fragment alone when it is. With the input \<open>["foo"]\<close> and no options, searching
  \<open>a foo b\<close> finds \<open>foo\<close> at offsets 2 to 5, and searching \<open>barfoox\<close> finds nothing.
\<close>

theorem createOptimizedRegex_wordBoundaries:
  "filterDedup vs \<noteq> [] \<Longrightarrow>
     createOptimizedRegex (JArray vs) opts =
       Inr (let body = trieToRegex (buildTrie (opt_caseInsensitive opts) (filterDedup vs))
            in if wordBoundaries opts = Some False then body
               else [CHR 0x5C, CHR ''b''] @ body @ [CHR 0x5C, CHR ''b''])
   \<and> createOptimizedRegex (JArray [JString ''foo'']) no_options
       = Inr (CHR 0x5C # ''bfoo'' @ [CHR 0x5C, CHR ''b''])
   \<and> search False (CHR 0x5C # ''bfoo'' @ [CHR 0x5C, CHR ''b'']) ''a foo b'' = Some (2, 5)
   \<and> search False (CHR 0x5C # ''bfoo'' @ [CHR 0x5C, CHR ''b'']) ''barfoox'' = None"
proof -
  assume "filterDedup vs \<noteq> []"
  then have ne: "uniqueStrings vs \<noteq> []" by (simp add: uniqueStrings_filterDedup)
  have wb: "opt_wordBoundaries opts \<longleftrightarrow> wordBoundaries opts \<noteq> Some False"
    by (cases "wordBoundaries opts") (simp_all add: opt_wordBoundaries_def)
  have 1: "createOptimizedRegex (JArray vs) opts =
       Inr (let body = trieToRegex (buildTrie (opt_caseInsensitive opts) (filterDedup vs))
            in if wordBoundaries opts = Some False then body
               else [CHR 0x5C, CHR ''b''] @ body @ [CHR 0x5C, CHR ''b''])"
    using createOptimizedRegex_valid [OF ne, of opts]
    by (simp add: wb Let_def uniqueStrings_filterDedup)
  have 2: "createOptimizedRegex (JArray [JString ''foo'']) no_options
       = Inr (CHR 0x5C # ''bfoo'' @ [CHR 0x5C, CHR ''b''])"
    by code_simp
  have 3: "search False (CHR 0x5C # ''bfoo'' @ [CHR 0x5C, CHR ''b'']) ''a foo b'' = Some (2, 5)"
    by code_simp
  have 4: "search False (CHR 0x5C # ''bfoo'' @ [CHR 0x5C, CHR ''b'']) ''barfoox'' = None"
    by code_simp
  from 1 2 3 4 show ?thesis by blast
qed

theorem createOptimizedRegex_wordBoundaries_witness:
  "filterDedup [JString ''foo'', JString ''bar''] = [''foo'', ''bar'']
   \<and> createOptimizedRegex (JArray [JString ''foo'', JString ''bar'']) no_options
       = Inr (CHR 0x5C # ''b(?:foo|bar)'' @ [CHR 0x5C, CHR ''b''])
   \<and> createOptimizedRegex (JArray [JString ''foo'', JString ''bar''])
         \<lparr>wordBoundaries = Some False, caseInsensitive = None\<rparr> = Inr ''(?:foo|bar)''"
proof -
  let ?vs = "[JString ''foo'', JString ''bar'']"
  have f: "filterDedup ?vs = [''foo'', ''bar'']" by (simp add: filterDedup_def)
  then have ne: "filterDedup ?vs \<noteq> []" by simp
  have body: "trieToRegex (buildTrie False [''foo'', ''bar'']) = ''(?:foo|bar)''" by code_simp
  have a: "createOptimizedRegex (JArray ?vs) no_options = Inr (CHR 0x5C # ''b(?:foo|bar)'' @ [CHR 0x5C, CHR ''b''])"
    using createOptimizedRegex_wordBoundaries [OF ne, of no_options]
    by (simp add: f body no_options_def opt_caseInsensitive_def)
  have b: "createOptimizedRegex (JArray ?vs) \<lparr>wordBoundaries = Some False, caseInsensitive = None\<rparr>
      = Inr ''(?:foo|bar)''"
    using createOptimizedRegex_wordBoundaries [OF ne, of "\<lparr>wordBoundaries = Some False, caseInsensitive = None\<rparr>"]
    by (simp add: f body opt_caseInsensitive_def)
  from f a b show ?thesis by blast
qed

text \<open>
  Claim C6. With \<open>caseInsensitive\<close>, \<open>buildTrie\<close> inserts the lowercased form of every string,
  so the pattern is the one compiled from the lowercased strings, and no token of a returned
  pattern opens an extension group, the form an inline modifier would take. For the input
  \<open>["Abs"]\<close> with \<open>caseInsensitive: true\<close>, the pattern is \<open>\babs\b\<close>, and the whole-string
  test that ignores case accepts \<open>abs\<close>, \<open>ABS\<close> and \<open>Abs\<close>.
\<close>

theorem createOptimizedRegex_caseInsensitive:
  "buildTrie True strs = buildTrie False (map toLowerCase strs)
   \<and> (createOptimizedRegex (JArray vs) opts = Inr p \<longrightarrow> TOpenExtension \<notin> set (tokenize p))
   \<and> createOptimizedRegex (JArray [JString ''Abs'']) \<lparr>wordBoundaries = None, caseInsensitive = Some True\<rparr>
       = Inr (CHR 0x5C # ''babs'' @ [CHR 0x5C, CHR ''b''])
   \<and> matches_whole True (CHR 0x5C # ''babs'' @ [CHR 0x5C, CHR ''b'']) ''abs''
   \<and> matches_whole True (CHR 0x5C # ''babs'' @ [CHR 0x5C, CHR ''b'']) ''ABS''
   \<and> matches_whole True (CHR 0x5C # ''babs'' @ [CHR 0x5C, CHR ''b'']) ''Abs''"
proof -
  have 1: "buildTrie True strs = buildTrie False (map toLowerCase strs)"
    by (simp add: buildTrie_def insert_word_toLowerCase)
  have 2: "TOpenExtension \<notin> set (tokenize p)" if "createOptimizedRegex (JArray vs) opts = Inr p"
    using tokens_of_pattern [OF that, of TOpenExtension] by auto
  have 3: "createOptimizedRegex (JArray [JString ''Abs'']) \<lparr>wordBoundaries = None, caseInsensitive = Some True\<rparr>
       = Inr (CHR 0x5C # ''babs'' @ [CHR 0x5C, CHR ''b''])"
    by code_simp
  have 4: "matches_whole True (CHR 0x5C # ''babs'' @ [CHR 0x5C, CHR ''b'']) ''abs''"
    by code_simp
  have 5: "matches_whole True (CHR 0x5C # ''babs'' @ [CHR 0x5C, CHR ''b'']) ''ABS''"
    by code_simp
  have 6: "matches_whole True (CHR 0x5C # ''babs'' @ [CHR 0x5C, CHR ''b'']) ''Abs''"
    by code_simp
  from 1 2 3 4 5 6 show ?thesis by blast
qed

theorem createOptimizedRegex_caseInsensitive_witness:
  "createOptimizedRegex (JArray [JString ''LL'', JString ''ll'']) \<lparr>wordBoundaries = Some False, caseInsensitive = Some True\<rparr>
     = Inr ''ll''
   \<and> tokenize ''ll'' = [TChar (CHR ''l''), TChar (CHR ''l'')]
   \<and> TOpenExtension \<notin> set (tokenize ''ll'')"
proof -
  have v: "createOptimizedRegex (JArray [JString ''LL'', JString ''ll''])
      \<lparr>wordBoundaries = Some False, caseInsensitive = Some True\<rparr> = Inr ''ll''"
    by code_simp
  have t: "tokenize ''ll'' = [TChar (CHR ''l''), TChar (CHR ''l'')]"
    by (simp add: single_token_def)
  have "TOpenExtension \<notin> set (tokenize ''ll'')"
    using v createOptimizedRegex_caseInsensitive
      [of "[]" "[JString ''LL'', JString ''ll'']" "\<lparr>wordBoundaries = Some False, caseInsensitive = Some True\<rparr>" "''ll''"]
    by blast
  with v t show ?thesis by blast
qed

text \<open>
  Claim C7. The strings that reach \<open>buildTrie\<close> are the non-empty strings of the input,
  each kept at its first occurrence. When there is at least one, compiling the input gives
  the same result as compiling that list, and an empty string or a value already present,
  added at the end of the input, does not change the result.
\<close>

theorem createOptimizedRegex_filterDedup:
  "filterDedup vs \<noteq> [] \<Longrightarrow>
     uniqueStrings vs = filterDedup vs
   \<and> createOptimizedRegex (JArray vs) opts =
       createOptimizedRegex (JArray (map JString (filterDedup vs))) opts
   \<and> createOptimizedRegex (JArray (vs @ [JString []])) opts = createOptimizedRegex (JArray vs) opts
   \<and> (\<forall>v \<in> set vs.
         createOptimizedRegex (JArray (vs @ [v])) opts = createOptimizedRegex (JArray vs) opts)"
proof -
  assume "filterDedup vs \<noteq> []"
  then have ne: "uniqueStrings vs \<noteq> []" by (simp add: uniqueStrings_filterDedup)
  have 1: "createOptimizedRegex (JArray vs) opts =
           createOptimizedRegex (JArray (map JString (filterDedup vs))) opts"
    using ne createOptimizedRegex_valid [of vs opts]
      createOptimizedRegex_valid [of "map JString (uniqueStrings vs)" opts]
    by (simp add: uniqueStrings_idem flip: uniqueStrings_filterDedup)
  have 2: "createOptimizedRegex (JArray (vs @ [JString []])) opts = createOptimizedRegex (JArray vs) opts"
    using ne createOptimizedRegex_valid [of vs opts]
      createOptimizedRegex_valid [of "vs @ [JString []]" opts]
    by (simp add: uniqueStrings_snoc_empty)
  have 3: "createOptimizedRegex (JArray (vs @ [v])) opts = createOptimizedRegex (JArray vs) opts"
    if "v \<in> set vs" for v
    using ne that createOptimizedRegex_valid [of vs opts]
      createOptimizedRegex_valid [of "vs @ [v]" opts]
    by (simp add: uniqueStrings_snoc_dup)
  from 1 2 3 show ?thesis by (simp add: uniqueStrings_filterDedup)
qed

theorem createOptimizedRegex_filterDedup_witness:
  "filterDedup [JString ''b'', JNull, JString ''a'', JString ''b'', JString []] = [''b'', ''a'']
   \<and> createOptimizedRegex (JArray [JString ''b'', JNull, JString ''a'', JString ''b'', JString []]) no_options =
       createOptimizedRegex (JArray [JString ''b'', JString ''a'']) no_options
   \<and> createOptimizedRegex (JArray ([JString ''b'', JNull, JString ''a'', JString ''b'', JString []] @ [JString []]))
         no_options =
       createOptimizedRegex (JArray [JString ''b'', JNull, JString ''a'', JString ''b'', JString []]) no_options
   \<and> createOptimizedRegex (JArray ([JString ''b'', JNull, JString ''a'', JString ''b'', JString []] @ [JString ''a'']))
         no_options =
       createOptimizedRegex (JArray [JString ''b'', JNull, JString ''a'', JString ''b'', JString []]) no_options
   \<and> createOptimizedRegex (JArray [JString ''b'', JString ''a'']) no_options
       = Inr (CHR 0x5C # ''b(?:b|a)'' @ [CHR 0x5C, CHR ''b''])"
proof -
  let ?vs = "[JString ''b'', JNull, JString ''a'', JString ''b'', JString []]"
  have f: "filterDedup ?vs = [''b'', ''a'']"
    by (simp add: filterDedup_def)
  then have ne: "filterDedup ?vs \<noteq> []"
    by simp
  have mem: "JString ''a'' \<in> set ?vs" by simp
  have v: "createOptimizedRegex (JArray [JString ''b'', JString ''a'']) no_options
       = Inr (CHR 0x5C # ''b(?:b|a)'' @ [CHR 0x5C, CHR ''b''])"
    by code_simp
  show ?thesis
    using f v mem createOptimizedRegex_filterDedup [OF ne, of no_options] by simp
qed

text \<open>
  Claim C8. When the script builds the \<open>standard_library\<close> rules, each non-empty list of
  qualified names (the functions and the constants of the Luau libraries and of the platform
  libraries, each of the form namespace \<open>.\<close> name) compiles without error, and the rule
  written for it has as \<open>match\<close> the lookbehind \<open>(?<![^.]\.|:)\<close> followed by the pattern that
  \<open>createOptimizedRegex\<close> returns for the list. The pattern itself has no token that opens an
  extension group, so the lookbehind comes from the caller alone; every rule written starts
  with it.
\<close>

theorem standard_lookbehind:
  assumes "standard libs = Inr rules"
    and "(nm, vocabulary) \<in>
          {(''support.function.luau'', luauFunctions libs),
           (''support.constant.luau'', luauConstants libs),
           (''support.function.luau'', platformFunctions libs),
           (''support.constant.luau'', platformConstants libs)}"
    and "vocabulary \<noteq> []"
  shows "(\<exists>p. createOptimizedRegex (JArray (map JString vocabulary)) no_options = Inr p
            \<and> Rule nm (''(?<![^.]'' @ CHR 0x5C # ''.|:)'' @ p) \<in> set rules
            \<and> TOpenExtension \<notin> set (tokenize p))
       \<and> (\<forall>r \<in> set rules. \<exists>rest. rule_match r = ''(?<![^.]'' @ CHR 0x5C # ''.|:)'' @ rest)"
proof -
  from assms(1) obtain gf gc s1 s2 s3 s4 s5 where
    p1: "push_rule ''support.function.luau'' gf [] = Inr s1" and
    p2: "push_rule ''constant.language.luau'' gc s1 = Inr s2" and
    p3: "push_rule ''support.function.luau'' (luauFunctions libs) s2 = Inr s3" and
    p4: "push_rule ''support.constant.luau'' (luauConstants libs) s3 = Inr s4" and
    p5: "push_rule ''support.function.luau'' (platformFunctions libs) s4 = Inr s5" and
    p6: "push_rule ''support.constant.luau'' (platformConstants libs) s5 = Inr rules"
    unfolding standard_def and_then_Inr by blast
  have m4: "set s3 \<subseteq> set rules"
    using push_rule_mono [OF p4] push_rule_mono [OF p5] push_rule_mono [OF p6] by blast
  have m5: "set s4 \<subseteq> set rules"
    using push_rule_mono [OF p5] push_rule_mono [OF p6] by blast
  have m6: "set s5 \<subseteq> set rules"
    using push_rule_mono [OF p6] by blast
  have written: "\<exists>p. createOptimizedRegex (JArray (map JString vocabulary)) no_options = Inr p \<and>
       Rule nm (lookbehind @ p) \<in> set rules"
    using assms(2,3) push_rule_written [OF p3] push_rule_written [OF p4]
      push_rule_written [OF p5] push_rule_written [OF p6] m4 m5 m6
    by auto
  then obtain p where p: "createOptimizedRegex (JArray (map JString vocabulary)) no_options = Inr p"
    and r: "Rule nm (lookbehind @ p) \<in> set rules" by blast
  have ext: "TOpenExtension \<notin> set (tokenize p)"
    using tokens_of_pattern [OF p, of TOpenExtension] by auto
  have lb: "lookbehind @ x = ''(?<![^.]'' @ CHR 0x5C # ''.|:)'' @ x" for x
    by (simp add: lookbehind_def)
  have "\<forall>r \<in> set rules. \<exists>rest. rule_match r = lookbehind @ rest"
    by (intro push_rule_prefixed [OF p6] push_rule_prefixed [OF p5] push_rule_prefixed [OF p4]
        push_rule_prefixed [OF p3] push_rule_prefixed [OF p2] push_rule_prefixed [OF p1]) simp
  with p r ext show ?thesis unfolding lb by blast
qed

theorem standard_lookbehind_witness:
  "standard example_libraries =
     Inr [Rule ''support.function.luau'' (''(?<![^.]'' @ CHR 0x5C # ''.|:)'' @ CHR 0x5C # ''bprint'' @ [CHR 0x5C, CHR ''b'']),
          Rule ''support.function.luau''
            (''(?<![^.]'' @ CHR 0x5C # ''.|:)'' @ CHR 0x5C # ''bmath'' @ CHR 0x5C # ''.(?:abs|max)'' @ [CHR 0x5C, CHR ''b'']),
          Rule ''support.constant.luau''
            (''(?<![^.]'' @ CHR 0x5C # ''.|:)'' @ CHR 0x5C # ''bmath'' @ CHR 0x5C # ''.pi'' @ [CHR 0x5C, CHR ''b'']),
          Rule ''support.function.luau''
            (''(?<![^.]'' @ CHR 0x5C # ''.|:)'' @ CHR 0x5C # ''bll'' @ CHR 0x5C # ''.Say'' @ [CHR 0x5C, CHR ''b''])]
   \<and> luauFunctions example_libraries = [''math.abs'', ''math.max'']
   \<and> createOptimizedRegex (JArray (map JString [''math.abs'', ''math.max''])) no_options
       = Inr (CHR 0x5C # ''bmath'' @ CHR 0x5C # ''.(?:abs|max)'' @ [CHR 0x5C, CHR ''b''])
   \<and> TOpenExtension \<notin> set (tokenize (CHR 0x5C # ''bmath'' @ CHR 0x5C # ''.(?:abs|max)'' @ [CHR 0x5C, CHR ''b'']))"
proof -
  let ?rules = "[Rule ''support.function.luau'' (''(?<![^.]'' @ CHR 0x5C # ''.|:)'' @ CHR 0x5C # ''bprint'' @ [CHR 0x5C, CHR ''b'']),
          Rule ''support.function.luau''
            (''(?<![^.]'' @ CHR 0x5C # ''.|:)'' @ CHR 0x5C # ''bmath'' @ CHR 0x5C # ''.(?:abs|max)'' @ [CHR 0x5C, CHR ''b'']),
          Rule ''support.constant.luau''
            (''(?<![^.]'' @ CHR 0x5C # ''.|:)'' @ CHR 0x5C # ''bmath'' @ CHR 0x5C # ''.pi'' @ [CHR 0x5C, CHR ''b'']),
          Rule ''support.function.luau''
            (''(?<![^.]'' @ CHR 0x5C # ''.|:)'' @ CHR 0x5C # ''bll'' @ CHR 0x5C # ''.Say'' @ [CHR 0x5C, CHR ''b''])]"
  have s: "standard example_libraries = Inr ?rules" by code_simp
  have v: "luauFunctions example_libraries = [''math.abs'', ''math.max'']" by code_simp
  have mem: "(''support.function.luau'', [''math.abs'', ''math.max'']) \<in>
          {(''support.function.luau'', luauFunctions example_libraries),
           (''support.constant.luau'', luauConstants example_libraries),
           (''support.function.luau'', platformFunctions example_libraries),
           (''support.constant.luau'', platformConstants example_libraries)}"
    unfolding v by simp
  have ne: "[''math.abs'', ''math.max''] \<noteq> []" by simp
  have c: "createOptimizedRegex (JArray (map JString [''math.abs'', ''math.max''])) no_options
       = Inr (CHR 0x5C # ''bmath'' @ CHR 0x5C # ''.(?:abs|max)'' @ [CHR 0x5C, CHR ''b''])"
    by code_simp
  have "TOpenExtension \<notin> set (tokenize (CHR 0x5C # ''bmath'' @ CHR 0x5C # ''.(?:abs|max)'' @ [CHR 0x5C, CHR ''b'']))"
    using standard_lookbehind [OF s mem ne] unfolding c by blast
  with s v c show ?thesis by blast
qed

text \<open>
  Claim C9. A pattern that \<open>createOptimizedRegex\<close> returns has no capturing group: none of
  its tokens opens a capturing group or an extension group, so every \<open>(\<close> in it is either
  taken by the backslash before it or is the start of \<open>(?:\<close>; and the pattern parses to an
  expression without a capturing group.
\<close>

theorem createOptimizedRegex_no_capturing_group:
  "createOptimizedRegex (JArray vs) opts = Inr p \<Longrightarrow>
     TOpenGroup \<notin> set (tokenize p) \<and> TOpenExtension \<notin> set (tokenize p)
   \<and> (\<exists>r. parse_regex p = Some r \<and> captures r = 0)"
proof -
  assume p: "createOptimizedRegex (JArray vs) opts = Inr p"
  let ?atoms = "trie_atoms (buildTrie (opt_caseInsensitive opts) (uniqueStrings vs))"
  have 1: "TOpenGroup \<notin> set (tokenize p)"
    using tokens_of_pattern [OF p, of TOpenGroup] by auto
  have 2: "TOpenExtension \<notin> set (tokenize p)"
    using tokens_of_pattern [OF p, of TOpenExtension] by auto
  have atoms: "\<forall>a \<in> set ?atoms. captures a = 0" by (rule captures_trie_atoms(1))
  then have "captures (seq_of ?atoms) = 0"
    and "captures (seq_of (WordBoundary # ?atoms @ [WordBoundary])) = 0"
    by (intro captures_seq_of; simp)+
  then have 3: "\<exists>r. parse_regex p = Some r \<and> captures r = 0"
    using parse_regex_pattern [OF p] by simp
  from 1 2 3 show ?thesis by blast
qed

theorem createOptimizedRegex_no_capturing_group_witness:
  "createOptimizedRegex (JArray [JString ''f(x)'', JString ''f'']) no_options
     = Inr (CHR 0x5C # ''bf(?:'' @ CHR 0x5C # ''(x'' @ CHR 0x5C # '')'' @ '')?'' @ [CHR 0x5C, CHR ''b''])
   \<and> TOpenGroup \<notin> set (tokenize (CHR 0x5C # ''bf(?:'' @ CHR 0x5C # ''(x'' @ CHR 0x5C # '')'' @ '')?'' @ [CHR 0x5C, CHR ''b'']))
   \<and> parse_regex (CHR 0x5C # ''bf(?:'' @ CHR 0x5C # ''(x'' @ CHR 0x5C # '')'' @ '')?'' @ [CHR 0x5C, CHR ''b''])
       = Some (Seq WordBoundary (Seq (Lit (CHR ''f''))
           (Seq (Opt (NonCapturing (Seq (Lit (CHR ''('')) (Seq (Lit (CHR ''x'')) (Lit (CHR '')''))))))
             WordBoundary)))"
proof -
  have v: "createOptimizedRegex (JArray [JString ''f(x)'', JString ''f'']) no_options
     = Inr (CHR 0x5C # ''bf(?:'' @ CHR 0x5C # ''(x'' @ CHR 0x5C # '')'' @ '')?'' @ [CHR 0x5C, CHR ''b''])"
    by code_simp
  have t: "TOpenGroup \<notin> set (tokenize (CHR 0x5C # ''bf(?:'' @ CHR 0x5C # ''(x'' @ CHR 0x5C # '')'' @ '')?'' @ [CHR 0x5C, CHR ''b'']))"
    using createOptimizedRegex_no_capturing_group [OF v] by blast
  have r: "parse_regex (CHR 0x5C # ''bf(?:'' @ CHR 0x5C # ''(x'' @ CHR 0x5C # '')'' @ '')?'' @ [CHR 0x5C, CHR ''b''])
       = Some (Seq WordBoundary (Seq (Lit (CHR ''f''))
           (Seq (Opt (NonCapturing (Seq (Lit (CHR ''('')) (Seq (Lit (CHR ''x'')) (Lit (CHR '')''))))))
             WordBoundary)))"
    by code_simp
  from v t r show ?thesis by blast
qed

text \<open>
  Claim C10. In a tree made by \<open>buildTrie\<close>, a node below the root that does not end a word
  has a child, and \<open>trieToRegex\<close> returns a non-empty fragment for every node that has a
  child. So no child of any node meets the condition of the fallback branch (a word end with
  children and an empty fragment), and no child is skipped by the loop (neither a word end
  nor a parent). This holds for every list of strings, the non-empty lists of non-empty
  strings that \<open>createOptimizedRegex\<close> passes among them.
\<close>

theorem buildTrie_no_dead_nodes:
  shows "(\<forall>n \<in> set (child_nodes (children (buildTrie ci strs))).
            \<not> isEndOfWord n \<longrightarrow> children n \<noteq> [])
       \<and> (\<forall>n \<in> set (nodes (buildTrie ci strs)). children n \<noteq> [] \<longrightarrow> trieToRegex n \<noteq> [])
       \<and> (\<forall>n \<in> set (nodes (buildTrie ci strs)). \<forall>(c, child) \<in> set (children n).
            \<not> (isEndOfWord child \<and> children child \<noteq> [] \<and> trieToRegex child = [])
          \<and> \<not> (\<not> isEndOfWord child \<and> children child = []))"
proof -
  let ?t = "buildTrie ci strs"
  have wf: "well_formed ?t" by (rule well_formed_buildTrie)
  then have wfc: "well_formed_children (children ?t)" by (cases ?t) simp
  have below: "well_formed n \<and> (isEndOfWord n \<or> children n \<noteq> [])"
    if "n \<in> set (child_nodes (children ?t))" for n
    using nodes_well_formed(2) [OF wfc that] .
  have any: "well_formed n" if "n \<in> set (nodes ?t)" for n
    using nodes_well_formed(1) [OF wf that] by simp
  have frag: "trieToRegex n \<noteq> []" if "n \<in> set (nodes ?t)" "children n \<noteq> []" for n
    using alternatives_well_formed(1) [OF any [OF that(1)] that(2)] .
  have child: "child \<in> set (child_nodes (children ?t))"
    if "n \<in> set (nodes ?t)" "(c, child) \<in> set (children n)" for n c child
    using child_in_child_nodes(1) [OF that] .
  have 1: "\<forall>n \<in> set (child_nodes (children ?t)). \<not> isEndOfWord n \<longrightarrow> children n \<noteq> []"
    using below by blast
  have 2: "\<forall>n \<in> set (nodes ?t). children n \<noteq> [] \<longrightarrow> trieToRegex n \<noteq> []"
    using frag by blast
  have 3: "\<forall>n \<in> set (nodes ?t). \<forall>(c, child) \<in> set (children n).
            \<not> (isEndOfWord child \<and> children child \<noteq> [] \<and> trieToRegex child = [])
          \<and> \<not> (\<not> isEndOfWord child \<and> children child = [])"
  proof (intro ballI, clarify)
    fix n c child
    assume n: "n \<in> set (nodes ?t)" and c: "(c, child) \<in> set (children n)"
    have mem: "child \<in> set (child_nodes (children ?t))" by (rule child [OF n c])
    then have "child \<in> set (nodes ?t)" using child_nodes_subset by blast
    then show "\<not> (isEndOfWord child \<and> children child \<noteq> [] \<and> trieToRegex child = [])
          \<and> \<not> (\<not> isEndOfWord child \<and> children child = [])"
      using frag [of child] below [OF mem] by blast
  qed
  from 1 2 3 show ?thesis by blast
qed

theorem buildTrie_no_dead_nodes_witness:
  "nodes (buildTrie False [''ab'', ''a'', ''c'']) =
        [Node False [(CHR ''a'', Node True [(CHR ''b'', Node True [])]), (CHR ''c'', Node True [])],
         Node True [(CHR ''b'', Node True [])], Node True [], Node True []]
   \<and> children (Node True [(CHR ''b'', Node True [])]) \<noteq> []
   \<and> trieToRegex (Node True [(CHR ''b'', Node True [])]) \<noteq> []
   \<and> \<not> (\<not> isEndOfWord (Node True []) \<and> children (Node True []) = [])"
proof -
  have n: "nodes (buildTrie False [''ab'', ''a'', ''c'']) =
        [Node False [(CHR ''a'', Node True [(CHR ''b'', Node True [])]), (CHR ''c'', Node True [])],
         Node True [(CHR ''b'', Node True [])], Node True [], Node True []]"
    by (simp add: buildTrie_def new_TrieNode_def)
  have "\<forall>n \<in> set (nodes (buildTrie False [''ab'', ''a'', ''c''])). children n \<noteq> [] \<longrightarrow> trieToRegex n \<noteq> []"
    using buildTrie_no_dead_nodes [of False "[''ab'', ''a'', ''c'']"] by blast
  then have "trieToRegex (Node True [(CHR ''b'', Node True [])]) \<noteq> []"
    unfolding n by simp
  then show ?thesis using n by simp
qed

end
